theory Spec2Isabelle
  imports Complex_Main "HOL-Library.Multiset"
begin

section \<open>Number model\<close>

text \<open>
  The analyser works on JavaScript numbers. The embedding takes them as real numbers:
  every result below is a statement about the algorithm in exact arithmetic, without the
  rounding of doubles and of the 32-bit storage of \<open>Float32Array\<close>. Array indices and
  loop counters are natural numbers, tempo values (results of \<open>Math.round\<close>) are integers.
  The bound of an engine on the number of arguments of a call is modelled apart (section
  \<open>detectBPM\<close>).
\<close>

definition js_round :: "real \<Rightarrow> int" where
  \<comment> \<open>\<open>Math.round\<close>: the nearest integer, a tie going up.\<close>
  "js_round x = \<lfloor>x + 1 / 2\<rfloor>"

definition js_rem :: "int \<Rightarrow> int \<Rightarrow> int" where
  \<comment> \<open>\<open>%\<close> on integers: the remainder has the sign of the dividend.\<close>
  "js_rem a b = sgn a * (\<bar>a\<bar> mod \<bar>b\<bar>)"

section \<open>Data model\<close>

datatype mode = Major | Minor

record key_tag =
  key :: string
  mode :: mode

text \<open>The entries of the local array \<open>candidates\<close> of \<open>detectKey\<close>.\<close>

record candidate = key_tag +
  correlation :: real

record KeyCandidate = key_tag +
  confidence :: real

record BPMResult =
  bpm :: int
  confidence :: real
  alternatives :: "int list"

record AnalysisResult =
  bpm :: int
  bpmConfidence :: real
  bpmAlternatives :: "int list"
  keyCandidates :: "KeyCandidate list"

text \<open>What the analysis reads of a decoded \<open>AudioBuffer\<close>: the rate and channel 0.\<close>

record AudioBuffer =
  sampleRate :: real
  channelData :: "real list"

datatype js_error = TypeError | RangeError

definition MAJOR_PROFILE :: "real list" where
  "MAJOR_PROFILE = [6.35, 2.23, 3.48, 2.33, 4.38, 4.09, 2.52, 5.19, 2.39, 3.66, 2.29, 2.88]"

definition MINOR_PROFILE :: "real list" where
  "MINOR_PROFILE = [6.33, 2.68, 3.52, 5.38, 2.60, 3.53, 2.54, 4.75, 3.98, 2.69, 3.34, 3.17]"

definition KEY_NAMES :: "string list" where
  "KEY_NAMES = [''C'', ''C#'', ''D'', ''D#'', ''E'', ''F'', ''F#'', ''G'', ''G#'', ''A'', ''A#'', ''B'']"

section \<open>The transform: \<open>fft\<close>\<close>

text \<open>
  \<open>fft\<close> works in place on two arrays of the same length \<open>n\<close>; the model passes both
  arrays through every loop and returns them. Each loop of the source is one recursive
  function, named after what the loop does.
\<close>

text \<open>The inner \<open>while (m >= 1 && j >= m) { j -= m; m >>= 1; }\<close>; returns \<open>(m, j)\<close>.\<close>

fun carry :: "nat \<Rightarrow> nat \<Rightarrow> nat \<times> nat" where
  "carry m j = (if m \<ge> 1 \<and> j \<ge> m then carry (m div 2) (j - m) else (m, j))"

declare carry.simps [simp del]

definition swap :: "nat \<Rightarrow> nat \<Rightarrow> real list \<Rightarrow> real list" where
  \<comment> \<open>\<open>[a[i], a[j]] = [a[j], a[i]]\<close>\<close>
  "swap i j a = a[i := a ! j, j := a ! i]"

text \<open>The bit-reversal loop \<open>for (let i = 0, j = 0; i < n; i++)\<close>.\<close>

function bitReverse :: "nat \<Rightarrow> nat \<Rightarrow> nat \<Rightarrow> real list \<Rightarrow> real list \<Rightarrow> real list \<times> real list" where
  "bitReverse n i j re im =
     (if i < n then
        (let re' = (if i < j then swap i j re else re);
             im' = (if i < j then swap i j im else im);
             mj = carry (n div 2) j
         in bitReverse n (i + 1) (snd mj + fst mj) re' im')
      else (re, im))"
  by pat_completeness auto
termination
  by (relation "measure (\<lambda>(n, i, j, re, im). n - i)") auto

declare bitReverse.simps [simp del]

text \<open>
  The innermost loop \<open>for (let j = 0; j < halfLen; j++)\<close>: one butterfly per round, the
  twiddle factor \<open>(curReal, curImag)\<close> advanced by a complex multiplication.
\<close>

function butterflies ::
  "nat \<Rightarrow> nat \<Rightarrow> real \<Rightarrow> real \<Rightarrow> nat \<Rightarrow> real \<Rightarrow> real \<Rightarrow> real list \<Rightarrow> real list
     \<Rightarrow> real list \<times> real list" where
  "butterflies i halfLen wReal wImag j curReal curImag re im =
     (if j < halfLen then
        (let uReal = re ! (i + j);
             uImag = im ! (i + j);
             tReal = curReal * re ! (i + j + halfLen) - curImag * im ! (i + j + halfLen);
             tImag = curReal * im ! (i + j + halfLen) + curImag * re ! (i + j + halfLen);
             re' = re[i + j := uReal + tReal, i + j + halfLen := uReal - tReal];
             im' = im[i + j := uImag + tImag, i + j + halfLen := uImag - tImag];
             nextReal = curReal * wReal - curImag * wImag;
             nextImag = curReal * wImag + curImag * wReal
         in butterflies i halfLen wReal wImag (j + 1) nextReal nextImag re' im')
      else (re, im))"
  by pat_completeness auto
termination
  by (relation "measure (\<lambda>(i, halfLen, wReal, wImag, j, curReal, curImag, re, im). halfLen - j)") auto

declare butterflies.simps [simp del]

text \<open>
  The middle loop \<open>for (let i = 0; i < n; i += len)\<close>. \<open>len\<close> is 2, 4, 8, ... in the
  source; the test \<open>0 < len\<close> only tells the definition that the loop advances.
\<close>

function blocks ::
  "nat \<Rightarrow> nat \<Rightarrow> real \<Rightarrow> real \<Rightarrow> nat \<Rightarrow> real list \<Rightarrow> real list \<Rightarrow> real list \<times> real list" where
  "blocks n len wReal wImag i re im =
     (if i < n \<and> 0 < len then
        (let r = butterflies i (len div 2) wReal wImag 0 1 0 re im
         in blocks n len wReal wImag (i + len) (fst r) (snd r))
      else (re, im))"
  by pat_completeness auto
termination
  by (relation "measure (\<lambda>(n, len, wReal, wImag, i, re, im). n - i)") auto

declare blocks.simps [simp del]

text \<open>The outer loop \<open>for (let len = 2; len <= n; len <<= 1)\<close>.\<close>

function stages :: "nat \<Rightarrow> nat \<Rightarrow> real list \<Rightarrow> real list \<Rightarrow> real list \<times> real list" where
  "stages n len re im =
     (if len \<le> n \<and> 0 < len then
        (let angle = (- 2 * pi) / real len;
             wReal = cos angle;
             wImag = sin angle;
             r = blocks n len wReal wImag 0 re im
         in stages n (2 * len) (fst r) (snd r))
      else (re, im))"
  by pat_completeness auto
termination
  by (relation "measure (\<lambda>(n, len, re, im). Suc n - len)") auto

declare stages.simps [simp del]

definition fft :: "real list \<Rightarrow> real list \<Rightarrow> real list \<times> real list" where
  "fft re im =
     (let n = length re
      in if n \<le> 1 then (re, im)
         else (let r = bitReverse n 0 0 re im in stages n 2 (fst r) (snd r)))"

section \<open>\<open>getMagnitudeSpectrum\<close>\<close>

definition hann :: "nat \<Rightarrow> nat \<Rightarrow> real" where
  "hann fftSize i = 0.5 * (1 - cos ((2 * pi * real i) / (real fftSize - 1)))"

text \<open>
  \<open>samples[i] || 0\<close> reads 0 where the segment is shorter than the frame. The callers pass
  the even sizes 2048 and 8192, so \<open>fftSize / 2\<close> is \<open>fftSize div 2\<close>.
\<close>

definition getMagnitudeSpectrum :: "real list \<Rightarrow> nat \<Rightarrow> real list" where
  "getMagnitudeSpectrum samples fftSize =
     (let re0 = map (\<lambda>i. (if i < length samples then samples ! i else 0) * hann fftSize i)
                    [0..<fftSize];
          im0 = replicate fftSize 0;
          r = fft re0 im0
      in map (\<lambda>i. sqrt (fst r ! i * fst r ! i + snd r ! i * snd r ! i)) [0..<fftSize div 2])"

section \<open>Framing\<close>

text \<open>
  Both passes cut the buffer with the same loop,
  \<open>for (let start = 0; start + fftSize < data.length; start += hopSize)\<close>.
  \<open>frameStarts\<close> lists the values of \<open>start\<close> for which the body runs. The hop sizes of
  the source are the constants 512 and 4096; the test \<open>0 < hopSize\<close> only tells the
  definition that the loop advances.
\<close>

function frameStarts :: "nat \<Rightarrow> nat \<Rightarrow> nat \<Rightarrow> nat \<Rightarrow> nat list" where
  "frameStarts fftSize hopSize len start =
     (if start + fftSize < len \<and> 0 < hopSize
      then start # frameStarts fftSize hopSize len (start + hopSize)
      else [])"
  by pat_completeness auto
termination
  by (relation "measure (\<lambda>(fftSize, hopSize, len, start). len - start)") auto

declare frameStarts.simps [simp del]

definition slice :: "real list \<Rightarrow> nat \<Rightarrow> nat \<Rightarrow> real list" where
  \<comment> \<open>\<open>data.slice(a, b)\<close> for \<open>a \<le> b\<close>\<close>
  "slice data a b = take (b - a) (drop a data)"

section \<open>\<open>pearsonCorrelation\<close>\<close>

definition pearsonCorrelation :: "real list \<Rightarrow> real list \<Rightarrow> real" where
  "pearsonCorrelation a b =
     (let n = length a;
          sumA = (\<Sum>i\<leftarrow>[0..<n]. a ! i);
          sumB = (\<Sum>i\<leftarrow>[0..<n]. b ! i);
          sumAB = (\<Sum>i\<leftarrow>[0..<n]. a ! i * b ! i);
          sumA2 = (\<Sum>i\<leftarrow>[0..<n]. a ! i * a ! i);
          sumB2 = (\<Sum>i\<leftarrow>[0..<n]. b ! i * b ! i);
          num = real n * sumAB - sumA * sumB;
          den = sqrt ((real n * sumA2 - sumA * sumA) * (real n * sumB2 - sumB * sumB))
      in if den = 0 then 0 else num / den)"

section \<open>\<open>detectKey\<close>\<close>

definition pitchOf :: "real \<Rightarrow> nat" where
  \<comment> \<open>frequency to pitch class, as \<open>normalizedPitch\<close> is computed\<close>
  "pitchOf freq =
     (let midiNote = 12 * log 2 (freq / 440) + 69;
          pitchClass = js_rem (js_round midiNote) 12;
          normalizedPitch = js_rem (js_rem pitchClass 12 + 12) 12
      in nat normalizedPitch)"

text \<open>The loop over the bins of one frame, \<open>for (let bin = 1; bin < magnitude.length; bin++)\<close>.\<close>

definition chromaBin :: "real \<Rightarrow> nat \<Rightarrow> real list \<Rightarrow> nat \<Rightarrow> real list \<Rightarrow> real list" where
  "chromaBin rate fftSize magnitude bin chroma =
     (let freq = (real bin * rate) / real fftSize
      in if freq < 60 \<or> freq > 2000 then chroma
         else chroma[pitchOf freq := chroma ! pitchOf freq + magnitude ! bin * magnitude ! bin])"

definition chromaFrame :: "real \<Rightarrow> nat \<Rightarrow> real list \<Rightarrow> real list \<Rightarrow> real list" where
  "chromaFrame rate fftSize magnitude chroma =
     fold (chromaBin rate fftSize magnitude) [1..<length magnitude] chroma"

text \<open>The loop over the frames, from \<open>new Array(12).fill(0)\<close>.\<close>

definition accumulateChroma :: "AudioBuffer \<Rightarrow> real list" where
  "accumulateChroma audioBuffer =
     (let data = channelData audioBuffer
      in fold (\<lambda>start chroma.
                chromaFrame (sampleRate audioBuffer) 8192
                  (getMagnitudeSpectrum (slice data start (start + 8192)) 8192) chroma)
              (frameStarts 8192 4096 (length data) 0)
              (replicate 12 0))"

definition normalizeChroma :: "real list \<Rightarrow> real list" where
  "normalizeChroma chroma =
     (let maxChroma = Max (set chroma)
      in if maxChroma > 0 then map (\<lambda>i. chroma ! i / maxChroma) [0..<12] else chroma)"

text \<open>The loop over the 12 shifts, which pushes a major and a minor candidate per shift.\<close>

definition keyCorrelations :: "real list \<Rightarrow> candidate list" where
  "keyCorrelations chroma =
     concat (map (\<lambda>shift.
        (let shiftedChroma = map (\<lambda>i. chroma ! ((i + shift) mod 12)) [0..<12];
             majorCorr = pearsonCorrelation MAJOR_PROFILE shiftedChroma;
             minorCorr = pearsonCorrelation MINOR_PROFILE shiftedChroma
         in [\<lparr>key = KEY_NAMES ! shift, mode = Major, correlation = majorCorr\<rparr>,
             \<lparr>key = KEY_NAMES ! shift, mode = Minor, correlation = minorCorr\<rparr>]))
       [0..<12])"

text \<open>
  From the sort to the result. \<open>Array.prototype.sort\<close> is stable, and the comparison
  \<open>b.correlation - a.correlation\<close> orders by correlation, largest first: this is
  \<open>sort_key\<close> on the negated correlation. \<open>topCandidates[0].correlation\<close> throws a
  \<open>TypeError\<close> on an empty array. \<open>maxCorr - minCorr || 1\<close> is 1 when the difference is 0.
\<close>

definition topCandidates :: "candidate list \<Rightarrow> candidate list" where
  \<comment> \<open>\<open>candidates.sort(...)\<close>, then \<open>candidates.slice(0, 6)\<close>\<close>
  "topCandidates candidates = take 6 (sort_key (\<lambda>c. - correlation c) candidates)"

definition rankCandidates :: "candidate list \<Rightarrow> js_error + KeyCandidate list" where
  "rankCandidates candidates =
     (let kept = topCandidates candidates
      in if kept = [] then Inl TypeError
         else (let maxCorr = correlation (kept ! 0);
                   minCorr = correlation (kept ! (length kept - 1));
                   range = (if maxCorr - minCorr = 0 then 1 else maxCorr - minCorr)
               in Inr (map (\<lambda>c. \<lparr>key = key c, mode = mode c,
                                   KeyCandidate.confidence = (correlation c - minCorr) / range\<rparr>)
                           kept)))"

text \<open>\<open>detectKey\<close> after the frame loop, from the comment "Normalize".\<close>

definition keyFromChroma :: "real list \<Rightarrow> js_error + KeyCandidate list" where
  "keyFromChroma chroma = rankCandidates (keyCorrelations (normalizeChroma chroma))"

definition detectKey :: "AudioBuffer \<Rightarrow> js_error + KeyCandidate list" where
  "detectKey audioBuffer = keyFromChroma (accumulateChroma audioBuffer)"

text \<open>
  Names for two arrays of \<open>detectKey\<close>: \<open>candidates\<close> as the shift loop leaves it, and
  \<open>topCandidates\<close>.
\<close>

definition allCandidates :: "AudioBuffer \<Rightarrow> candidate list" where
  "allCandidates audioBuffer = keyCorrelations (normalizeChroma (accumulateChroma audioBuffer))"

definition retained :: "AudioBuffer \<Rightarrow> candidate list" where
  "retained audioBuffer = topCandidates (allCandidates audioBuffer)"

section \<open>\<open>detectBPM\<close>\<close>

definition fluxOf :: "real list \<Rightarrow> real list \<Rightarrow> real" where
  \<comment> \<open>the half-wave rectified difference of two spectra\<close>
  "fluxOf magnitude prevMagnitude =
     (\<Sum>i\<leftarrow>[0..<length magnitude].
        (let diff = magnitude ! i - prevMagnitude ! i in if diff > 0 then diff else 0))"

text \<open>One round of the frame loop; the state is \<open>(prevMagnitude, spectralFlux)\<close>.\<close>

definition fluxStep ::
  "real list \<Rightarrow> nat \<Rightarrow> real list option \<times> real list \<Rightarrow> real list option \<times> real list" where
  "fluxStep data start st =
     (let magnitude = getMagnitudeSpectrum (slice data start (start + 2048)) 2048
      in (Some magnitude,
          case fst st of None \<Rightarrow> snd st
                       | Some prevMagnitude \<Rightarrow> snd st @ [fluxOf magnitude prevMagnitude]))"

definition computeSpectralFlux :: "real list \<Rightarrow> real list" where
  "computeSpectralFlux data =
     snd (fold (fluxStep data) (frameStarts 2048 512 (length data) 0) (None, []))"

definition normalizeFlux :: "real list \<Rightarrow> real list" where
  "normalizeFlux spectralFlux =
     (let maxFlux = Max (set spectralFlux)
      in if maxFlux > 0 then map (\<lambda>x. x / maxFlux) spectralFlux else spectralFlux)"

text \<open>
  The sample rate of an \<open>AudioBuffer\<close> is positive, so the two lags are natural numbers.
\<close>

definition minLagOf :: "real \<Rightarrow> nat" where
  "minLagOf framesPerSecond = nat \<lfloor>(60 / 180) * framesPerSecond\<rfloor>"

definition maxLagOf :: "real \<Rightarrow> nat" where
  "maxLagOf framesPerSecond = nat \<lfloor>(60 / 60) * framesPerSecond\<rfloor>"

text \<open>
  The autocorrelation loop
  \<open>for (let lag = minLag; lag <= maxLag && lag < spectralFlux.length / 2; lag++)\<close>.
\<close>

function autocorrelate :: "real list \<Rightarrow> nat \<Rightarrow> nat \<Rightarrow> real list" where
  "autocorrelate spectralFlux maxLag lag =
     (if lag \<le> maxLag \<and> 2 * lag < length spectralFlux then
        (let sum = (\<Sum>i\<leftarrow>[0..<length spectralFlux - lag].
                      spectralFlux ! i * spectralFlux ! (i + lag))
         in sum / real (length spectralFlux - lag) # autocorrelate spectralFlux maxLag (lag + 1))
      else [])"
  by pat_completeness auto
termination
  by (relation "measure (\<lambda>(spectralFlux, maxLag, lag). Suc maxLag - lag)") auto

declare autocorrelate.simps [simp del]

text \<open>The entries of the local array \<open>peaks\<close> of \<open>detectBPM\<close>.\<close>

record peak =
  lag :: nat
  "value" :: real
  bpm :: int

definition isPeak :: "real list \<Rightarrow> nat \<Rightarrow> bool" where
  "isPeak correlations i \<longleftrightarrow>
     correlations ! i > correlations ! (i - 1) \<and> correlations ! i > correlations ! (i + 1)"

text \<open>The peak loop \<open>for (let i = 1; i < correlations.length - 1; i++)\<close>.\<close>

definition findPeaks :: "real \<Rightarrow> nat \<Rightarrow> real list \<Rightarrow> peak list" where
  "findPeaks framesPerSecond minLag correlations =
     map (\<lambda>i. \<lparr>lag = minLag + i, value = correlations ! i,
               peak.bpm = js_round ((60 * framesPerSecond) / real (minLag + i))\<rparr>)
         (filter (isPeak correlations) [1..<length correlations - 1])"

definition foldPrimary :: "int \<Rightarrow> int" where
  \<comment> \<open>"Normalize to common range, prefer 80-140"\<close>
  "foldPrimary b =
     (if b > 140 then (let halfBPM = js_round (real_of_int b / 2) in if halfBPM \<ge> 60 then halfBPM else b)
      else if b < 80 then (let doubleBPM = b * 2 in if doubleBPM \<le> 180 then doubleBPM else b)
      else b)"

definition foldAlt :: "int \<Rightarrow> int" where
  "foldAlt altBpm =
     (if altBpm > 140 \<and> real_of_int altBpm / 2 \<ge> 60 then js_round (real_of_int altBpm / 2)
      else if altBpm < 80 \<and> altBpm * 2 \<le> 180 then altBpm * 2
      else altBpm)"

text \<open>
  A \<open>Set\<close> of numbers keeps its members in the order of their first insertion, and
  \<open>Array.from\<close> lists them in that order: the model is a list without repetition.
\<close>

definition set_add :: "int \<Rightarrow> int list \<Rightarrow> int list" where
  "set_add x s = (if x \<in> set s then s else s @ [x])"

definition set_delete :: "int \<Rightarrow> int list \<Rightarrow> int list" where
  "set_delete x s = removeAll x s"

definition addPeak :: "int \<Rightarrow> peak \<Rightarrow> int list \<Rightarrow> int list" where
  \<comment> \<open>the body of \<open>for (const peak of peaks.slice(1, 4))\<close>\<close>
  "addPeak b p alts =
     (let altBpm = foldAlt (peak.bpm p)
      in if \<bar>altBpm - b\<bar> > 5 then set_add altBpm alts else alts)"

definition collectAlternatives :: "int \<Rightarrow> peak list \<Rightarrow> int list" where
  "collectAlternatives b peaks =
     (let a0 = [];
          a1 = (if b * 2 \<le> 200 then set_add (b * 2) a0 else a0);
          a2 = (if real_of_int b / 2 \<ge> 50 then set_add (js_round (real_of_int b / 2)) a1 else a1);
          a3 = fold (addPeak b) (take 3 (drop 1 peaks)) a2
      in set_delete b a3)"

definition degenerate :: BPMResult where
  "degenerate = \<lparr>BPMResult.bpm = 120, confidence = 0, alternatives = []\<rparr>"

definition correlationsOf :: "real \<Rightarrow> real list \<Rightarrow> real list" where
  \<comment> \<open>the array \<open>correlations\<close>, from the normalized flux\<close>
  "correlationsOf rate spectralFlux =
     (let framesPerSecond = rate / 512;
          minLag = minLagOf framesPerSecond;
          maxLag = maxLagOf framesPerSecond
      in autocorrelate spectralFlux maxLag minLag)"

definition peaksOf :: "real \<Rightarrow> real list \<Rightarrow> peak list" where
  \<comment> \<open>the array \<open>peaks\<close> before it is sorted\<close>
  "peaksOf rate spectralFlux =
     (let framesPerSecond = rate / 512
      in findPeaks framesPerSecond (minLagOf framesPerSecond) (correlationsOf rate spectralFlux))"

text \<open>The part of \<open>detectBPM\<close> after the frame loop, from \<open>if (spectralFlux.length < 100)\<close>.\<close>

definition tempoFromFlux :: "real \<Rightarrow> real list \<Rightarrow> BPMResult" where
  "tempoFromFlux rate rawFlux =
     (if length rawFlux < 100 then degenerate
      else
        (let spectralFlux = normalizeFlux rawFlux;
             correlations = correlationsOf rate spectralFlux;
             peaks = sort_key (\<lambda>p. - value p) (peaksOf rate spectralFlux)
         in if length peaks = 0 then degenerate
            else
              (let bestPeak = peaks ! 0;
                   maxCorr = Max (set correlations);
                   avgCorr = sum_list correlations / real (length correlations);
                   conf = min 1 (max 0 ((value bestPeak - avgCorr) / (maxCorr - avgCorr + 0.001)));
                   b = foldPrimary (peak.bpm bestPeak)
               in \<lparr>BPMResult.bpm = b, confidence = conf,
                   alternatives = sort (take 3 (collectAlternatives b peaks))\<rparr>)))"

text \<open>The array \<open>peaks\<close> after \<open>peaks.sort((a, b) => b.value - a.value)\<close>, from the raw flux.\<close>

definition rankedPeaks :: "real \<Rightarrow> real list \<Rightarrow> peak list" where
  "rankedPeaks rate rawFlux = sort_key (\<lambda>p. - value p) (peaksOf rate (normalizeFlux rawFlux))"

text \<open>
  \<open>Math.max(...spectralFlux)\<close> passes every flux value as one argument of a call. An engine
  takes only so many arguments and throws a \<open>RangeError\<close> beyond; the bound depends on the
  engine and its stack, and is the parameter \<open>maxArguments\<close>. The call is reached with 100
  flux values or more. \<open>tempoFromFlux\<close> is what \<open>detectBPM\<close> computes when the call returns;
  its second call of that kind, \<open>Math.max(...correlations)\<close>, has fewer arguments than the
  first (lemma \<open>correlationsOf_length\<close>), and \<open>Math.max(...chroma)\<close> in \<open>detectKey\<close> has 12.
\<close>

definition detectBPM :: "nat \<Rightarrow> AudioBuffer \<Rightarrow> js_error + BPMResult" where
  "detectBPM maxArguments audioBuffer =
     (let spectralFlux = computeSpectralFlux (channelData audioBuffer)
      in if 100 \<le> length spectralFlux \<and> maxArguments < length spectralFlux then Inl RangeError
         else Inr (tempoFromFlux (sampleRate audioBuffer) spectralFlux))"

section \<open>\<open>analyzeAudio\<close>, after decoding\<close>

definition analyze :: "nat \<Rightarrow> AudioBuffer \<Rightarrow> js_error + AnalysisResult" where
  "analyze maxArguments audioBuffer =
     (case detectBPM maxArguments audioBuffer of
        Inl e \<Rightarrow> Inl e
      | Inr bpmResult \<Rightarrow>
          (case detectKey audioBuffer of
             Inl e \<Rightarrow> Inl e
           | Inr kcs \<Rightarrow>
               Inr \<lparr>AnalysisResult.bpm = BPMResult.bpm bpmResult,
                    bpmConfidence = BPMResult.confidence bpmResult,
                    bpmAlternatives = alternatives bpmResult,
                    keyCandidates = kcs\<rparr>))"

section \<open>The confidence of a key candidate, in the words of the specification\<close>

text \<open>
  The specification describes the confidence as a min-max rescale over the retained
  candidates, \<open>(corr - minCorrInTop6) / (maxCorrInTop6 - minCorrInTop6)\<close>, with a rule
  for the denominator. \<open>rescale\<close> is that description with the rule as a parameter;
  the maximum and the minimum are taken over the retained candidates, not read at the
  two ends of the sorted array as \<open>rankCandidates\<close> does.
\<close>

definition rescale :: "(real \<Rightarrow> real) \<Rightarrow> candidate list \<Rightarrow> KeyCandidate list" where
  "rescale denom kept =
     (let maxCorrInTop6 = Max (correlation ` set kept);
          minCorrInTop6 = Min (correlation ` set kept)
      in map (\<lambda>c. \<lparr>key = key c, mode = mode c,
                     KeyCandidate.confidence =
                       (correlation c - minCorrInTop6) / denom (maxCorrInTop6 - minCorrInTop6)\<rparr>)
             kept)"

definition floored :: "real \<Rightarrow> real" where
  \<comment> \<open>"the denominator floored to a minimum of 1"\<close>
  "floored d = max 1 d"

definition orOne :: "real \<Rightarrow> real" where
  \<comment> \<open>the denominator replaced by 1 when it is 0\<close>
  "orOne d = (if d = 0 then 1 else d)"

section \<open>The energy in the analysis band\<close>

text \<open>
  The band of the bin loop is 60 Hz to 2000 Hz. \<open>frameBandEnergy\<close> is the energy of one
  spectrum in the band: the squared magnitudes of the bins, from bin 1, whose frequency
  passes the test of the loop. \<open>analysedBandEnergy\<close> sums it over the frames that the frame
  loop of \<open>detectKey\<close> visits, which is what the chroma vector accumulates; the energy of
  the frames of the specification is \<open>specBandEnergy\<close> below.
\<close>

definition inBand :: "real \<Rightarrow> nat \<Rightarrow> nat \<Rightarrow> bool" where
  "inBand rate fftSize bin \<longleftrightarrow>
     \<not> ((real bin * rate) / real fftSize < 60 \<or> (real bin * rate) / real fftSize > 2000)"

definition frameBandEnergy :: "real \<Rightarrow> nat \<Rightarrow> real list \<Rightarrow> real" where
  "frameBandEnergy rate fftSize magnitude =
     (\<Sum>bin\<leftarrow>[1..<length magnitude].
        if inBand rate fftSize bin then magnitude ! bin * magnitude ! bin else 0)"

definition analysedBandEnergy :: "AudioBuffer \<Rightarrow> real" where
  "analysedBandEnergy audioBuffer =
     (let data = channelData audioBuffer
      in (\<Sum>start\<leftarrow>frameStarts 8192 4096 (length data) 0.
            frameBandEnergy (sampleRate audioBuffer) 8192
              (getMagnitudeSpectrum (slice data start (start + 8192)) 8192)))"

section \<open>The alternatives, in the words of the specification\<close>

text \<open>
  The candidate alternatives in the order \<open>detectBPM\<close> meets them: the double and the
  half of the primary tempo, then the folded tempi of the next three strongest peaks that
  differ from the primary tempo by more than 5.
\<close>

definition alternativeCandidates :: "int \<Rightarrow> peak list \<Rightarrow> int list" where
  "alternativeCandidates b peaks =
     (if b * 2 \<le> 200 then [b * 2] else []) @
     (if real_of_int b / 2 \<ge> 50 then [js_round (real_of_int b / 2)] else []) @
     filter (\<lambda>a. \<bar>a - b\<bar> > 5) (map (\<lambda>p. foldAlt (peak.bpm p)) (take 3 (drop 1 peaks)))"

definition dedupe :: "int list \<Rightarrow> int list" where
  \<comment> \<open>each value once, at the place of its first occurrence\<close>
  "dedupe xs = rev (remdups (rev xs))"

text \<open>"Deduplicate, remove the primary bpm, sort ascending, and truncate to the first 3."\<close>

definition sortThenTruncate :: "int \<Rightarrow> peak list \<Rightarrow> int list" where
  "sortThenTruncate b peaks = take 3 (sort (removeAll b (dedupe (alternativeCandidates b peaks))))"

text \<open>The same steps with the truncation before the sort.\<close>

definition truncateThenSort :: "int \<Rightarrow> peak list \<Rightarrow> int list" where
  "truncateThenSort b peaks = sort (take 3 (removeAll b (dedupe (alternativeCandidates b peaks))))"

section \<open>Two onset signals\<close>

text \<open>
  Two values of the array \<open>spectralFlux\<close> as the frame loop may leave it: a few pairs of
  onsets in silence. In \<open>fluxFourPeaks\<close> (100 values) the pairs are 10, 8, 12 and 6 frames
  apart; in \<open>fluxNearPeaks\<close> (120 values) they are 17, 21 and 11 frames apart.
\<close>

definition fluxFourPeaks :: "real list" where
  "fluxFourPeaks =
     [10] @ replicate 9 0 @ [10] @ replicate 19 0 @ [9] @ replicate 7 0 @ [9] @ replicate 21 0 @
     [8] @ replicate 11 0 @ [8] @ replicate 17 0 @ [7] @ replicate 5 0 @ [7] @ replicate 3 0"

definition fluxNearPeaks :: "real list" where
  "fluxNearPeaks =
     [10] @ replicate 16 0 @ [10] @ replicate 32 0 @ [9] @ replicate 20 0 @ [9] @ replicate 32 0 @
     [8] @ replicate 10 0 @ [8] @ replicate 4 0"

section \<open>The discrete Fourier transform and a sine frame\<close>

text \<open>
  What the transform is meant to compute, for the statements about its result: the
  reversal of the lowest \<open>q\<close> bits of an index, the two arrays read as one array of complex
  numbers, and the discrete Fourier transform of a sequence of \<open>n\<close> complex numbers.
\<close>

fun bitrev :: "nat \<Rightarrow> nat \<Rightarrow> nat" where
  "bitrev 0 i = 0"
| "bitrev (Suc q) i = (i mod 2) * 2 ^ q + bitrev q (i div 2)"

definition cz :: "real list \<Rightarrow> real list \<Rightarrow> nat \<Rightarrow> complex" where
  "cz re im p = Complex (re ! p) (im ! p)"

definition dft :: "nat \<Rightarrow> (nat \<Rightarrow> complex) \<Rightarrow> nat \<Rightarrow> complex" where
  "dft n x m = (\<Sum>u<n. x u * cis (- 2 * pi / real n) ^ (u * m))"

text \<open>
  A frame of \<open>F\<close> samples of a sine wave of frequency \<open>f\<close>, amplitude \<open>amp\<close> and phase
  \<open>phase\<close> at the first sample of the frame, sampled at \<open>rate\<close>. A frame cut from a longer
  wave at the sample \<open>start\<close> has the phase \<open>2 * pi * f * start / rate\<close>.
\<close>

definition sineFrame :: "real \<Rightarrow> real \<Rightarrow> real \<Rightarrow> real \<Rightarrow> nat \<Rightarrow> real list" where
  "sineFrame rate f amp phase F =
     map (\<lambda>n. amp * sin (2 * pi * f * real n / rate + phase)) [0..<F]"

text \<open>
  The frames and the spectrum in the words of the specification. "The i-th frame starts at
  sample \<open>i*H\<close> and is emitted only while \<open>start + F <= bufferLength\<close>"; each sample of a
  frame is multiplied by its Hann coefficient, and the spectrum holds the magnitudes of
  the first \<open>F / 2\<close> bins of the transform. \<open>specBandEnergy\<close> is the energy that these
  frames carry in the band.
\<close>

definition specFrameStarts :: "nat \<Rightarrow> nat \<Rightarrow> nat \<Rightarrow> nat list" where
  "specFrameStarts F H L = takeWhile (\<lambda>start. start + F \<le> L) (map (\<lambda>i. i * H) [0..<Suc L])"

definition specSpectrum :: "real list \<Rightarrow> nat \<Rightarrow> real list" where
  "specSpectrum frame F =
     map (\<lambda>m. cmod (dft F (\<lambda>u. of_real (frame ! u * hann F u)) m)) [0..<F div 2]"

definition specBandEnergy :: "AudioBuffer \<Rightarrow> real" where
  "specBandEnergy audioBuffer =
     (let data = channelData audioBuffer
      in (\<Sum>start\<leftarrow>specFrameStarts 8192 4096 (length data).
            frameBandEnergy (sampleRate audioBuffer) 8192
              (specSpectrum (slice data start (start + 8192)) 8192)))"

text \<open>8192 samples of a sine wave of bin 82 of the key pass, about 441 Hz, at 44100 Hz.\<close>

definition tone :: "real list" where
  "tone = sineFrame 44100 (real 82 * 44100 / real 8192) 1 0 8192"

text \<open>
  What one stage does to a position \<open>p\<close> of the arrays: with half block length \<open>h\<close> and twiddle
  \<open>w\<close>, the lower half of a block receives the sum and the upper half the difference.
\<close>

definition combine :: "nat \<Rightarrow> complex \<Rightarrow> (nat \<Rightarrow> complex) \<Rightarrow> nat \<Rightarrow> complex" where
  "combine h w a p =
     (let t = p mod (2 * h)
      in if t < h then a p + w ^ t * a (p + h) else a (p - h) - w ^ (t - h) * a p)"

text \<open>
  The transform of length \<open>2 ^ s\<close> of the samples at the positions congruent to \<open>r\<close> modulo
  \<open>2 ^ (k - s)\<close>, and the state of the arrays before the stage of block length \<open>2 ^ Suc s\<close>.
\<close>

definition subdft :: "nat \<Rightarrow> (nat \<Rightarrow> complex) \<Rightarrow> nat \<Rightarrow> nat \<Rightarrow> nat \<Rightarrow> complex" where
  "subdft k x s r t = (\<Sum>u<2 ^ s. x (u * 2 ^ (k - s) + r) * cis (- 2 * pi / 2 ^ s) ^ (u * t))"

definition stageInv :: "nat \<Rightarrow> (nat \<Rightarrow> complex) \<Rightarrow> nat \<Rightarrow> (nat \<Rightarrow> complex) \<Rightarrow> bool" where
  "stageInv k x s a \<longleftrightarrow>
     (\<forall>b<2 ^ (k - s). \<forall>t<2 ^ s. a (b * 2 ^ s + t) = subdft k x s (bitrev (k - s) b) t)"

text \<open>
  The sum of \<open>N\<close> unit vectors of step \<open>\<alpha>\<close>, and the transform of the window of
  \<open>getMagnitudeSpectrum\<close> at the angle \<open>\<alpha>\<close>.
\<close>

definition cisSum :: "nat \<Rightarrow> real \<Rightarrow> complex" where
  "cisSum N \<alpha> = (\<Sum>n<N. cis (real n * \<alpha>))"

definition hannSum :: "nat \<Rightarrow> real \<Rightarrow> complex" where
  "hannSum N \<alpha> = (\<Sum>n<N. of_real (hann N n) * cis (real n * \<alpha>))"

section \<open>Framing: which frames are analysed\<close>

lemma frameStarts_nth:
  "i < length (frameStarts F H L s) \<Longrightarrow> frameStarts F H L s ! i = s + i * H"
proof (induction F H L s arbitrary: i rule: frameStarts.induct)
  case (1 F H L s)
  show ?case
  proof (cases "s + F < L \<and> 0 < H")
    case True
    then have eq: "frameStarts F H L s = s # frameStarts F H L (s + H)"
      by (subst frameStarts.simps) simp
    show ?thesis
    proof (cases i)
      case 0
      then show ?thesis by (simp add: eq)
    next
      case (Suc k)
      with "1.prems" eq have "k < length (frameStarts F H L (s + H))" by simp
      from "1.IH" [OF True this] Suc eq show ?thesis by simp
    qed
  next
    case False
    then have "frameStarts F H L s = []" by (subst frameStarts.simps) simp
    with "1.prems" show ?thesis by simp
  qed
qed

lemma frameStarts_set:
  "0 < H \<Longrightarrow> set (frameStarts F H L s) = {s + i * H | i. s + i * H + F < L}"
proof (induction F H L s rule: frameStarts.induct)
  case (1 F H L s)
  show ?case
  proof (cases "s + F < L")
    case True
    with "1.prems" have eq: "frameStarts F H L s = s # frameStarts F H L (s + H)"
      by (subst frameStarts.simps) simp
    have IH: "set (frameStarts F H L (s + H)) = {s + H + i * H | i. s + H + i * H + F < L}"
      using "1.IH" True "1.prems" by simp
    show ?thesis
    proof (rule set_eqI)
      fix x
      show "x \<in> set (frameStarts F H L s) \<longleftrightarrow> x \<in> {s + i * H | i. s + i * H + F < L}"
      proof
        assume "x \<in> set (frameStarts F H L s)"
        then consider "x = s" | "x \<in> set (frameStarts F H L (s + H))" using eq by auto
        then show "x \<in> {s + i * H | i. s + i * H + F < L}"
        proof cases
          case 1
          then have "x = s + 0 * H \<and> s + 0 * H + F < L" using True by simp
          then show ?thesis by blast
        next
          case 2
          then obtain i where "x = s + H + i * H" "s + H + i * H + F < L" using IH by auto
          then have "x = s + Suc i * H \<and> s + Suc i * H + F < L" by (simp add: algebra_simps)
          then show ?thesis by blast
        qed
      next
        assume "x \<in> {s + i * H | i. s + i * H + F < L}"
        then obtain i where i: "x = s + i * H" "s + i * H + F < L" by auto
        show "x \<in> set (frameStarts F H L s)"
        proof (cases i)
          case 0
          then show ?thesis using i eq by simp
        next
          case (Suc k)
          then have "x = s + H + k * H \<and> s + H + k * H + F < L" using i by (simp add: algebra_simps)
          then have "x \<in> set (frameStarts F H L (s + H))" using IH by blast
          then show ?thesis using eq by simp
        qed
      qed
    qed
  next
    case False
    then have "frameStarts F H L s = []" by (subst frameStarts.simps) simp
    moreover have "{s + i * H | i. s + i * H + F < L} = {}"
    proof -
      have "\<not> s + i * H + F < L" for i using False by simp
      then show ?thesis by simp
    qed
    ultimately show ?thesis by simp
  qed
qed

text \<open>
  Claim C4. The i-th frame starts at sample \<open>i * H\<close> (\<open>frameStarts_nth\<close>), and the loop
  runs its body for a start exactly when \<open>start + F < L\<close> (\<open>frameStarts_set\<close>): the test
  is strict. Where the claim has a frame for every start with \<open>start + F \<le> L\<close>, and one
  frame for a buffer of exactly \<open>F\<close> samples, the loop runs for no start at all on such a
  buffer: the last complete frame of a buffer that ends on a frame boundary is skipped.
\<close>

theorem frameStarts_exact_fit: "frameStarts F H F 0 = []"
  by (simp add: frameStarts.simps)

section \<open>Ranking the key candidates\<close>

lemma topCandidates_sorted: "sorted (map (\<lambda>c. - correlation c) (topCandidates cs))"
  unfolding topCandidates_def by (simp add: take_map [symmetric] sorted_wrt_take del: take_map)

lemma topCandidates_length: "length (topCandidates cs) = min 6 (length cs)"
  unfolding topCandidates_def by simp

lemma topCandidates_split:
  "sort_key (\<lambda>c. - correlation c) cs = topCandidates cs @ drop 6 (sort_key (\<lambda>c. - correlation c) cs)"
  unfolding topCandidates_def by simp

lemma topCandidates_largest:
  assumes "c \<in> set (topCandidates cs)" "d \<in> set (drop 6 (sort_key (\<lambda>c. - correlation c) cs))"
  shows "correlation d \<le> correlation c"
proof -
  have "sorted (map (\<lambda>c. - correlation c) (topCandidates cs @ drop 6 (sort_key (\<lambda>c. - correlation c) cs)))"
    using topCandidates_split [of cs] sorted_sort_key [of "\<lambda>c. - correlation c" cs] by simp
  then have "\<forall>x\<in>set (topCandidates cs). \<forall>y\<in>set (drop 6 (sort_key (\<lambda>c. - correlation c) cs)).
      - correlation x \<le> - correlation y"
    by (simp add: sorted_append)
  with assms show ?thesis by auto
qed

lemma sorted_desc_nth:
  assumes "sorted (map (\<lambda>c. - correlation c) xs)" "i \<le> j" "j < length xs"
  shows "correlation (xs ! j) \<le> correlation (xs ! i)"
proof -
  have "map (\<lambda>c. - correlation c) xs ! i \<le> map (\<lambda>c. - correlation c) xs ! j"
    using assms by (intro sorted_nth_mono) simp_all
  with assms show ?thesis by simp
qed

lemma sorted_desc_Max:
  assumes "sorted (map (\<lambda>c. - correlation c) xs)" "xs \<noteq> []"
  shows "Max (correlation ` set xs) = correlation (xs ! 0)"
proof (rule Max_eqI)
  show "finite (correlation ` set xs)" by simp
  show "correlation (xs ! 0) \<in> correlation ` set xs" using assms(2) by simp
  fix y assume "y \<in> correlation ` set xs"
  then obtain j where "j < length xs" "y = correlation (xs ! j)"
    by (auto simp: in_set_conv_nth)
  then show "y \<le> correlation (xs ! 0)" using sorted_desc_nth [OF assms(1), of 0 j] by simp
qed

lemma sorted_desc_Min:
  assumes "sorted (map (\<lambda>c. - correlation c) xs)" "xs \<noteq> []"
  shows "Min (correlation ` set xs) = correlation (xs ! (length xs - 1))"
proof (rule Min_eqI)
  show "finite (correlation ` set xs)" by simp
  show "correlation (xs ! (length xs - 1)) \<in> correlation ` set xs" using assms(2) by simp
  fix y assume "y \<in> correlation ` set xs"
  then obtain j where j: "j < length xs" "y = correlation (xs ! j)"
    by (auto simp: in_set_conv_nth)
  then show "correlation (xs ! (length xs - 1)) \<le> y"
    using sorted_desc_nth [OF assms(1), of j "length xs - 1"] by simp
qed

lemma rankCandidates_rescale:
  assumes "cs \<noteq> []"
  shows "rankCandidates cs = Inr (rescale orOne (topCandidates cs))"
proof -
  have ne: "topCandidates cs \<noteq> []"
    using assms topCandidates_length [of cs] by (cases cs) auto
  show ?thesis
    unfolding rankCandidates_def rescale_def orOne_def Let_def
    using ne by (simp add: sorted_desc_Max [OF topCandidates_sorted ne]
        sorted_desc_Min [OF topCandidates_sorted ne])
qed


lemma rescale_nth:
  "i < length kept \<Longrightarrow> KeyCandidate.confidence (rescale d kept ! i) =
     (correlation (kept ! i) - Min (correlation ` set kept)) / d (Max (correlation ` set kept) - Min (correlation ` set kept))"
  by (simp add: rescale_def Let_def)


lemma Min_le_Max_corr: "kept \<noteq> [] \<Longrightarrow> Min (correlation ` set kept) \<le> Max (correlation ` set kept)"
  by (simp add: Min_le_iff) 




lemma rescale_first:
  assumes "sorted (map (\<lambda>c. - correlation c) kept)" "kept \<noteq> []"
  shows "KeyCandidate.confidence (rescale orOne kept ! 0) =
     (if Max (correlation ` set kept) = Min (correlation ` set kept) then 0 else 1)"
  using assms by (simp add: rescale_nth sorted_desc_Max [symmetric] orOne_def)

lemma keyCorrelations_length: "length (keyCorrelations chroma) = 24"
  unfolding keyCorrelations_def Let_def by (simp add: length_concat comp_def sum_list_triv)

section \<open>A chroma vector with a single pitch class\<close>

lemma upt12: "[0..<12] = [0,1,2,3,4,5,6,7,8,9,10,11]"
  by code_simp

lemma sM_bounds: "5027 / 100 < sqrt (25273017 / 10000)" "sqrt (25273017 / 10000) < 5028 / 100"
  by (rule real_less_rsqrt, simp add: power2_eq_square, rule real_less_lsqrt, simp_all add: power2_eq_square)

lemma sm_bounds: "4596 / 100 < sqrt (21129361 / 10000)" "sqrt (21129361 / 10000) < 4597 / 100"
  by (rule real_less_rsqrt, simp add: power2_eq_square, rule real_less_lsqrt, simp_all add: power2_eq_square)

lemma corr_unit:
  "map correlation (keyCorrelations [1,0,0,0,0,0,0,0,0,0,0,0]) =
    [3441 / (100 * sqrt (25273017 / 10000)), 629 / (20 * sqrt (21129361 / 10000)), - (723 / (100 * sqrt (25273017 / 10000))),
      - (647 / (100 * sqrt (21129361 / 10000))), - (1431 / (100 * sqrt (25273017 / 10000))), - (443 / (100 * sqrt (21129361 / 10000))),
      213 / (100 * sqrt (25273017 / 10000)), - (1223 / (100 * sqrt (21129361 / 10000))), - (1311 / (100 * sqrt (25273017 / 10000))),
      13 / (4 * sqrt (21129361 / 10000)), 2049 / (100 * sqrt (25273017 / 10000)), 1249 / (100 * sqrt (21129361 / 10000)),
      - (231 / (20 * sqrt (25273017 / 10000))), - (1403 / (100 * sqrt (21129361 / 10000))), 729 / (100 * sqrt (25273017 / 10000)),
      - (43 / (20 * sqrt (21129361 / 10000))), 1077 / (100 * sqrt (25273017 / 10000)), - (1331 / (100 * sqrt (21129361 / 10000))),
      - (1383 / (100 * sqrt (25273017 / 10000))), 401 / (20 * sqrt (21129361 / 10000)), - (3 / (100 * sqrt (25273017 / 10000))),
      - (227 / (100 * sqrt (21129361 / 10000))), - (1503 / (100 * sqrt (25273017 / 10000))), - (247 / (20 * sqrt (21129361 / 10000)))]"
  by (simp add: keyCorrelations_def pearsonCorrelation_def MAJOR_PROFILE_def MINOR_PROFILE_def upt12 Let_def)

lemma unit_bounds:
  "\<forall>x\<in>set (map correlation (keyCorrelations [1,0,0,0,0,0,0,0,0,0,0,0])). - (31 / 100) < x \<and> x < 69 / 100"
  unfolding corr_unit using sM_bounds sm_bounds
  by (simp add: field_simps)

lemma unit_count:
  "length (filter (\<lambda>x. 1 / 2 < x) (map correlation (keyCorrelations [1,0,0,0,0,0,0,0,0,0,0,0]))) = 2"
  unfolding corr_unit using sM_bounds sm_bounds
  by (simp add: field_simps)

lemma unit_big:
  "68 / 100 < hd (map correlation (keyCorrelations [1,0,0,0,0,0,0,0,0,0,0,0]))"
  unfolding corr_unit using sM_bounds sm_bounds
  by (simp add: field_simps)

lemma filter_take_length: "length (filter P (take n xs)) \<le> length (filter P xs)"
proof -
  have "length (filter P xs) = length (filter P (take n xs @ drop n xs))" by simp
  also have "\<dots> = length (filter P (take n xs)) + length (filter P (drop n xs))" 
    by (simp only: filter_append length_append)
  finally show ?thesis by simp
qed

lemma topCandidates_filter_length:
  "length (filter P (topCandidates cs)) \<le> length (filter P cs)"
proof -
  have "length (filter P (topCandidates cs)) \<le> length (filter P (sort_key (\<lambda>c. - correlation c) cs))"
    unfolding topCandidates_def by (rule filter_take_length)
  also have "\<dots> = length (filter P cs)" by (simp add: filter_sort)
  finally show ?thesis .
qed

lemma topCandidates_subset: "set (topCandidates cs) \<subseteq> set cs"
  unfolding topCandidates_def using set_take_subset [of 6 "sort_key (\<lambda>c. - correlation c) cs"] by simp

lemma topCandidates_first_largest:
  assumes "c \<in> set cs"
  shows "correlation c \<le> correlation (topCandidates cs ! 0)"
proof -
  let ?s = "sort_key (\<lambda>c. - correlation c) cs"
  from assms have "c \<in> set ?s" by simp
  then obtain j where j: "j < length ?s" "c = ?s ! j" unfolding in_set_conv_nth by blast
  have "correlation (?s ! j) \<le> correlation (?s ! 0)"
    using sorted_desc_nth [of ?s 0 j] j by (simp add: sorted_sort_key del: length_sort)
  moreover have "topCandidates cs ! 0 = ?s ! 0" unfolding topCandidates_def by simp
  ultimately show ?thesis using j by simp
qed

text \<open>
  Claim C5 as it is stated, with the denominator floored to a minimum of 1, fails. For the
  chroma vector with all its energy in pitch class C the six retained correlations span
  less than 1 and are not all equal: \<open>detectKey\<close> divides by their span, and the first
  candidate gets confidence 1, where division by 1 would give it the span.
\<close>

theorem floored_counterexample:
  "keyFromChroma [1,0,0,0,0,0,0,0,0,0,0,0] \<noteq>
     Inr (rescale floored (topCandidates (keyCorrelations (normalizeChroma [1,0,0,0,0,0,0,0,0,0,0,0]))))"
proof -
  let ?e = "[1,0,0,0,0,0,0,0,0,0,0,0] :: real list"
  let ?cs = "keyCorrelations ?e"
  let ?K = "topCandidates ?cs"
  let ?mx = "Max (correlation ` set ?K)" and ?mn = "Min (correlation ` set ?K)"
  have norm: "normalizeChroma ?e = ?e" by (simp add: normalizeChroma_def upt12)
  have len: "length ?K = 6" by (simp add: topCandidates_length keyCorrelations_length)
  then have ne: "?K \<noteq> []" by auto
  have csne: "?cs \<noteq> []" using keyCorrelations_length [of ?e] by auto
  have bounds: "- (31 / 100) < correlation c \<and> correlation c < 69 / 100" if "c \<in> set ?K" for c
  proof -
    from that topCandidates_subset have "correlation c \<in> set (map correlation ?cs)" by auto
    with unit_bounds show ?thesis by blast
  qed
  have "?mx \<in> correlation ` set ?K" "?mn \<in> correlation ` set ?K"
    using ne by (simp_all del: set_map image_set)
  then obtain a b where ab: "a \<in> set ?K" "?mx = correlation a" "b \<in> set ?K" "?mn = correlation b"
    by blast
  have lt1: "?mx - ?mn < 1" using bounds [OF ab(1)] bounds [OF ab(3)] ab(2,4) by linarith
  have neq: "?mx \<noteq> ?mn"
  proof
    assume eq: "?mx = ?mn"
    have big: "1 / 2 < correlation c" if c: "c \<in> set ?K" for c
    proof -
      have "?mn \<le> correlation c" "correlation c \<le> ?mx" using c by simp_all
      with eq have "correlation c = ?mx" by linarith
      also have "?mx = correlation (?K ! 0)" by (rule sorted_desc_Max [OF topCandidates_sorted ne])
      finally have "correlation c = correlation (?K ! 0)" .
      moreover have "hd ?cs \<in> set ?cs" using csne by simp
      then have "correlation (hd ?cs) \<le> correlation (?K ! 0)" by (rule topCandidates_first_largest)
      moreover have "68 / 100 < correlation (hd ?cs)" using unit_big csne by (simp add: hd_map)
      ultimately show ?thesis by linarith
    qed
    then have "filter (\<lambda>c. 1 / 2 < correlation c) ?K = ?K" by (simp add: filter_id_conv)
    then have "length (filter (\<lambda>c. 1 / 2 < correlation c) ?K) = 6" using len by simp
    moreover have "length (filter (\<lambda>c. 1 / 2 < correlation c) ?K) \<le> length (filter (\<lambda>c. 1 / 2 < correlation c) ?cs)"
      by (rule topCandidates_filter_length)
    moreover have "length (filter (\<lambda>c. 1 / 2 < correlation c) ?cs) = 2"
      using unit_count by (simp add: filter_map comp_def)
    ultimately show False by simp
  qed
  have code: "keyFromChroma ?e = Inr (rescale orOne ?K)"
    unfolding keyFromChroma_def norm by (rule rankCandidates_rescale [OF csne])
  have c1: "KeyCandidate.confidence (rescale orOne ?K ! 0) = 1"
    using rescale_first [OF topCandidates_sorted ne] neq by simp
  have "Min (correlation ` set ?K) \<le> Max (correlation ` set ?K)" by (rule Min_le_Max_corr [OF ne])
  then have "KeyCandidate.confidence (rescale floored ?K ! 0) = ?mx - ?mn"
    using len lt1 by (simp add: rescale_nth floored_def sorted_desc_Max [OF topCandidates_sorted ne, symmetric] max_def)
  with lt1 c1 have "rescale orOne ?K \<noteq> rescale floored ?K" by auto
  with code show ?thesis by (simp add: norm)
qed

section \<open>The key candidates of a chroma vector of zeros\<close>

lemma zero_chroma_norm: "normalizeChroma (replicate 12 0) = replicate 12 0"
  by (simp add: normalizeChroma_def)

lemma zero_chroma_corr:
  "keyCorrelations (replicate 12 0) =
     concat (map (\<lambda>shift. [\<lparr>key = KEY_NAMES ! shift, mode = Major, correlation = 0\<rparr>,
                            \<lparr>key = KEY_NAMES ! shift, mode = Minor, correlation = 0\<rparr>]) [0..<12])"
  by (simp add: keyCorrelations_def pearsonCorrelation_def upt12 Let_def MAJOR_PROFILE_def MINOR_PROFILE_def)

lemma zero_chroma_top:
  "topCandidates (keyCorrelations (replicate 12 0)) =
     [\<lparr>key = ''C'', mode = Major, correlation = 0\<rparr>, \<lparr>key = ''C'', mode = Minor, correlation = 0\<rparr>,
      \<lparr>key = ''C#'', mode = Major, correlation = 0\<rparr>, \<lparr>key = ''C#'', mode = Minor, correlation = 0\<rparr>,
      \<lparr>key = ''D'', mode = Major, correlation = 0\<rparr>, \<lparr>key = ''D'', mode = Minor, correlation = 0\<rparr>]"
proof -
  let ?cs = "keyCorrelations (replicate 12 0)"
  have "sorted (map (\<lambda>c. - correlation c) ?cs)" unfolding zero_chroma_corr by (simp add: upt12)
  then have "sort_key (\<lambda>c. - correlation c) ?cs = ?cs" by (rule sort_key_id_if_sorted)
  then show ?thesis unfolding topCandidates_def by (simp add: zero_chroma_corr upt12 KEY_NAMES_def)
qed

lemma zero_chroma_key:
  "keyFromChroma (replicate 12 0) =
     Inr [\<lparr>key = ''C'', mode = Major, KeyCandidate.confidence = 0\<rparr>, \<lparr>key = ''C'', mode = Minor, KeyCandidate.confidence = 0\<rparr>,
      \<lparr>key = ''C#'', mode = Major, KeyCandidate.confidence = 0\<rparr>, \<lparr>key = ''C#'', mode = Minor, KeyCandidate.confidence = 0\<rparr>,
      \<lparr>key = ''D'', mode = Major, KeyCandidate.confidence = 0\<rparr>, \<lparr>key = ''D'', mode = Minor, KeyCandidate.confidence = 0\<rparr>]"
  unfolding keyFromChroma_def zero_chroma_norm rankCandidates_def zero_chroma_top by simp

lemma empty_chroma: "accumulateChroma \<lparr>sampleRate = r, channelData = []\<rparr> = replicate 12 0"
  by (simp add: accumulateChroma_def frameStarts.simps)

section \<open>The result of \<open>detectKey\<close>\<close>

lemma allCandidates_length: "length (allCandidates ab) = 24"
  by (simp add: allCandidates_def keyCorrelations_length)

lemma retained_length: "length (retained ab) = 6"
  by (simp add: retained_def topCandidates_length allCandidates_length)


lemma detectKey_rescale: "detectKey ab = Inr (rescale orOne (retained ab))"
proof -
  have "allCandidates ab \<noteq> []" using allCandidates_length [of ab] by auto
  then show ?thesis
    unfolding detectKey_def keyFromChroma_def retained_def allCandidates_def
    by (rule rankCandidates_rescale)
qed

text \<open>
  Claim C5, amended. The retained candidates are six of the 24 tuples, none of the other
  18 has a larger correlation than any of them, and the confidence of each is
  \<open>(corr - minCorrInTop6) / (maxCorrInTop6 - minCorrInTop6)\<close>, where a denominator that is
  0 is replaced by 1 and any other denominator is used as it is.
\<close>

theorem detectKey_top6_rescale:
  "detectKey ab = Inr (rescale orOne (retained ab)) \<and> length (retained ab) = 6 \<and>
   (\<exists>rest. mset (allCandidates ab) = mset (retained ab) + mset rest \<and> length rest = 18 \<and>
      (\<forall>c\<in>set (retained ab). \<forall>d\<in>set rest. correlation d \<le> correlation c))"
proof -
  let ?s = "sort_key (\<lambda>c. - correlation c) (allCandidates ab)"
  have "mset (allCandidates ab) = mset ?s" by simp
  also have "?s = retained ab @ drop 6 ?s" unfolding retained_def by (rule topCandidates_split)
  finally have "mset (allCandidates ab) = mset (retained ab) + mset (drop 6 ?s)" by simp
  moreover have "length (drop 6 ?s) = 18" by (simp add: allCandidates_length)
  moreover have "\<forall>c\<in>set (retained ab). \<forall>d\<in>set (drop 6 ?s). correlation d \<le> correlation c"
    unfolding retained_def using topCandidates_largest by blast
  ultimately show ?thesis using detectKey_rescale retained_length by blast
qed

lemma retained_empty:
  "retained \<lparr>sampleRate = r, channelData = []\<rparr> =
     [\<lparr>key = ''C'', mode = Major, correlation = 0\<rparr>, \<lparr>key = ''C'', mode = Minor, correlation = 0\<rparr>,
      \<lparr>key = ''C#'', mode = Major, correlation = 0\<rparr>, \<lparr>key = ''C#'', mode = Minor, correlation = 0\<rparr>,
      \<lparr>key = ''D'', mode = Major, correlation = 0\<rparr>, \<lparr>key = ''D'', mode = Minor, correlation = 0\<rparr>]"
  unfolding retained_def allCandidates_def empty_chroma zero_chroma_norm by (rule zero_chroma_top)

text \<open>Claim C5, witness: the empty buffer.\<close>

theorem detectKey_top6_rescale_witness:
  "detectKey \<lparr>sampleRate = 44100, channelData = []\<rparr> =
     Inr [\<lparr>key = ''C'', mode = Major, KeyCandidate.confidence = 0\<rparr>, \<lparr>key = ''C'', mode = Minor, KeyCandidate.confidence = 0\<rparr>,
      \<lparr>key = ''C#'', mode = Major, KeyCandidate.confidence = 0\<rparr>, \<lparr>key = ''C#'', mode = Minor, KeyCandidate.confidence = 0\<rparr>,
      \<lparr>key = ''D'', mode = Major, KeyCandidate.confidence = 0\<rparr>, \<lparr>key = ''D'', mode = Minor, KeyCandidate.confidence = 0\<rparr>]
   \<and> length (retained \<lparr>sampleRate = 44100, channelData = []\<rparr>) = 6"
  using detectKey_top6_rescale [of "\<lparr>sampleRate = 44100, channelData = []\<rparr>"]
  by (simp add: retained_empty rescale_def orOne_def)



section \<open>The chroma vector\<close>

lemma js_rem_range: "0 < b \<Longrightarrow> - b < js_rem a b \<and> js_rem a b < b"
proof -
  assume b: "0 < b"
  have m: "0 \<le> \<bar>a\<bar> mod \<bar>b\<bar>" "\<bar>a\<bar> mod \<bar>b\<bar> < b" using b by simp_all
  show ?thesis
  proof (cases "a < 0")
    case True
    then have "js_rem a b = - (\<bar>a\<bar> mod \<bar>b\<bar>)" by (simp add: js_rem_def)
    with m b show ?thesis by linarith
  next
    case False
    then have "js_rem a b = \<bar>a\<bar> mod \<bar>b\<bar> \<or> js_rem a b = 0" by (cases "a = 0") (simp_all add: js_rem_def)
    with m b show ?thesis by linarith
  qed
qed

lemma js_rem_nonneg: "0 \<le> a \<Longrightarrow> 0 < b \<Longrightarrow> 0 \<le> js_rem a b \<and> js_rem a b < b"
  by (cases "a = 0") (simp_all add: js_rem_def)

lemma pitchOf_lt: "pitchOf freq < 12"
proof -
  let ?pc = "js_rem (js_round (12 * log 2 (freq / 440) + 69)) 12"
  have "- 12 < js_rem ?pc 12" using js_rem_range [of 12 ?pc] by simp
  then have "0 \<le> js_rem ?pc 12 + 12" by simp
  then have "js_rem (js_rem ?pc 12 + 12) 12 < 12" using js_rem_nonneg [of "js_rem ?pc 12 + 12" 12] by simp
  then show ?thesis by (simp add: pitchOf_def Let_def)
qed

lemma sum_list_update_real:
  "k < length xs \<Longrightarrow> sum_list (xs[k := xs ! k + (v::real)]) = sum_list xs + v"
proof (induction xs arbitrary: k)
  case Nil
  then show ?case by simp
next
  case (Cons x xs)
  then show ?case by (cases k) simp_all
qed

lemma chromaBin_length: "length (chromaBin r F m bin c) = length c"
  by (simp add: chromaBin_def Let_def)

lemma chromaBin_sum:
  "length c = 12 \<Longrightarrow> sum_list (chromaBin r F m bin c) =
     sum_list c + (if inBand r F bin then m ! bin * m ! bin else 0)"
  by (simp add: chromaBin_def Let_def inBand_def sum_list_update_real pitchOf_lt)

lemma chromaBin_nonneg:
  assumes "length c = 12" "\<forall>x\<in>set c. 0 \<le> x"
  shows "\<forall>x\<in>set (chromaBin r F m bin c). 0 \<le> x"
proof
  fix x assume x: "x \<in> set (chromaBin r F m bin c)"
  show "0 \<le> x"
  proof (cases "real bin * r / real F < 60 \<or> real bin * r / real F > 2000")
    case True
    with x assms show ?thesis by (simp add: chromaBin_def Let_def)
  next
    case False
    let ?p = "pitchOf (real bin * r / real F)"
    have p: "?p < length c" using assms(1) pitchOf_lt by simp
    from False x have "x \<in> set (c[?p := c ! ?p + m ! bin * m ! bin])"
      by (simp add: chromaBin_def Let_def)
    then have "x \<in> insert (c ! ?p + m ! bin * m ! bin) (set c)"
      using set_update_subset_insert by fastforce
    moreover have "0 \<le> c ! ?p" using p assms(2) by simp
    then have "0 \<le> c ! ?p + m ! bin * m ! bin" by simp
    ultimately show ?thesis using assms(2) by auto
  qed
qed

lemma fold_chromaBin:
  "length c = 12 \<Longrightarrow> \<forall>x\<in>set c. 0 \<le> x \<Longrightarrow>
     length (fold (chromaBin r F m) bins c) = 12 \<and>
     (\<forall>x\<in>set (fold (chromaBin r F m) bins c). 0 \<le> x) \<and>
     sum_list (fold (chromaBin r F m) bins c) =
       sum_list c + (\<Sum>bin\<leftarrow>bins. if inBand r F bin then m ! bin * m ! bin else 0)"
proof (induction bins arbitrary: c)
  case Nil
  then show ?case by simp
next
  case (Cons b bins)
  have l: "length (chromaBin r F m b c) = 12" using Cons.prems by (simp add: chromaBin_length)
  have n: "\<forall>x\<in>set (chromaBin r F m b c). 0 \<le> x" using Cons.prems by (intro chromaBin_nonneg)
  from Cons.IH [OF l n] show ?case using Cons.prems by (simp add: chromaBin_sum)
qed

lemma chromaFrame_props:
  "length c = 12 \<Longrightarrow> \<forall>x\<in>set c. 0 \<le> x \<Longrightarrow>
     length (chromaFrame r F m c) = 12 \<and> (\<forall>x\<in>set (chromaFrame r F m c). 0 \<le> x) \<and>
     sum_list (chromaFrame r F m c) = sum_list c + frameBandEnergy r F m"
  unfolding chromaFrame_def frameBandEnergy_def by (rule fold_chromaBin)

lemma fold_chromaFrame:
  "length c = 12 \<Longrightarrow> \<forall>x\<in>set c. 0 \<le> x \<Longrightarrow>
     length (fold (\<lambda>start chroma. chromaFrame r F (g start) chroma) starts c) = 12 \<and>
     (\<forall>x\<in>set (fold (\<lambda>start chroma. chromaFrame r F (g start) chroma) starts c). 0 \<le> x) \<and>
     sum_list (fold (\<lambda>start chroma. chromaFrame r F (g start) chroma) starts c) =
       sum_list c + (\<Sum>start\<leftarrow>starts. frameBandEnergy r F (g start))"
proof (induction starts arbitrary: c)
  case Nil
  then show ?case by simp
next
  case (Cons s starts)
  from chromaFrame_props [OF Cons.prems, of r F "g s"] Cons.IH [of "chromaFrame r F (g s) c"]
  show ?case by simp
qed

lemma accumulateChroma_props:
  "length (accumulateChroma ab) = 12 \<and> (\<forall>x\<in>set (accumulateChroma ab). 0 \<le> x) \<and>
   sum_list (accumulateChroma ab) = analysedBandEnergy ab"
proof -
  have "length (replicate 12 (0::real)) = 12" "\<forall>x\<in>set (replicate 12 (0::real)). 0 \<le> x" by simp_all
  from fold_chromaFrame [OF this, of "sampleRate ab" 8192
      "\<lambda>start. getMagnitudeSpectrum (slice (channelData ab) start (start + 8192)) 8192"
      "frameStarts 8192 4096 (length (channelData ab)) 0"]
  moreover have "sum_list (replicate 12 (0::real)) = 0"
    by (metis sum_list_replicate mult_zero_right)
  ultimately show ?thesis
    unfolding accumulateChroma_def analysedBandEnergy_def Let_def by simp
qed

lemma nonneg_sum_zero:
  "\<forall>x\<in>set (c::real list). 0 \<le> x \<Longrightarrow> sum_list c = 0 \<Longrightarrow> c = replicate (length c) 0"
proof (induction c)
  case Nil
  then show ?case by simp
next
  case (Cons x c)
  have "0 \<le> sum_list c" using Cons.prems(1) by (intro sum_list_nonneg) simp
  with Cons.prems have "x = 0" "sum_list c = 0" by auto
  with Cons show ?case by simp
qed

lemma normalizeChroma_props:
  assumes len: "length c = 12" and nn: "\<forall>x\<in>set c. 0 \<le> x"
  shows "length (normalizeChroma c) = 12 \<and> (\<forall>x\<in>set (normalizeChroma c). 0 \<le> x \<and> x \<le> 1) \<and>
    ((0 < sum_list c \<and> 1 \<in> set (normalizeChroma c)) \<or> (sum_list c = 0 \<and> normalizeChroma c = replicate 12 0))"
proof -
  have ne: "set c \<noteq> {}" using len by auto
  let ?M = "Max (set c)"
  have Min: "?M \<in> set c" using ne by simp
  show ?thesis
  proof (cases "0 < ?M")
    case True
    have N: "normalizeChroma c = map (\<lambda>x. x / ?M) c"
    proof -
      have "map (\<lambda>i. c ! i / ?M) [0..<12] = map (\<lambda>x. x / ?M) (map (\<lambda>i. c ! i) [0..<length c])"
        using len by simp
      also have "map (\<lambda>i. c ! i) [0..<length c] = c" by (rule map_nth)
      finally show ?thesis using True by (simp add: normalizeChroma_def)
    qed
    have r: "\<forall>x\<in>set (normalizeChroma c). 0 \<le> x \<and> x \<le> 1"
      unfolding N using True nn by (auto simp: divide_le_eq)
    have "?M / ?M \<in> set (normalizeChroma c)" unfolding N using Min by (simp del: Max_in)
    then have one: "1 \<in> set (normalizeChroma c)" using True by simp
    have "?M \<le> sum_list c" using Min nn by (intro member_le_sum_list) auto
    then have "0 < sum_list c" using True by linarith
    with r one N len show ?thesis by simp
  next
    case False
    have "x = 0" if "x \<in> set c" for x
    proof -
      have "x \<le> ?M" using that by simp
      moreover have "0 \<le> x" using nn that by blast
      ultimately show ?thesis using False by linarith
    qed
    then have z: "c = replicate 12 0" using len by (metis replicate_eqI)
    then have "sum_list c = 0" by (metis sum_list_replicate mult_zero_right)
    moreover have "normalizeChroma c = c" using False by (simp add: normalizeChroma_def)
    ultimately show ?thesis using z by simp
  qed
qed

text \<open>
  After the normalization the chroma vector has 12 values, all in [0, 1]; when the frames
  that the loop visits carry energy in the band, one of the values is 1, and when they
  carry none, all 12 values are 0.
\<close>

lemma normalizeChroma_analysed:
  "length (normalizeChroma (accumulateChroma ab)) = 12 \<and>
   (\<forall>x\<in>set (normalizeChroma (accumulateChroma ab)). 0 \<le> x \<and> x \<le> 1) \<and>
   ((0 < analysedBandEnergy ab \<and> 1 \<in> set (normalizeChroma (accumulateChroma ab))) \<or>
    (analysedBandEnergy ab = 0 \<and> normalizeChroma (accumulateChroma ab) = replicate 12 0))"
  using normalizeChroma_props [of "accumulateChroma ab"] accumulateChroma_props [of ab]
  by simp

section \<open>Evaluating the tempo estimate on an onset signal\<close>

lemma autocorr_sum_zip:
  "(\<Sum>i\<leftarrow>[0..<length xs - l]. xs ! i * xs ! (i + l)) = sum_list (map2 (*) xs (drop l (xs::real list)))"
proof -
  have "map2 (*) xs (drop l xs) = map (\<lambda>i. xs ! i * xs ! (i + l)) [0..<length xs - l]"
    by (rule nth_equalityI) (simp_all add: add.commute)
  then show ?thesis by simp
qed

lemma autocorrelate_zip:
  "autocorrelate xs maxLag l =
     (if l \<le> maxLag \<and> 2 * l < length xs
      then sum_list (map2 (*) xs (drop l xs)) / real (length xs - l) # autocorrelate xs maxLag (l + 1)
      else [])"
  by (subst autocorrelate.simps) (simp add: autocorr_sum_zip Let_def)

lemma four_norm: "normalizeFlux fluxFourPeaks = [1, 0, 0, 0, 0, 0, 0, 0, 0, 0, 1, 0, 0, 0, 0, 0, 0, 0, 0, 0, 0, 0, 0, 0, 0, 0, 0, 0, 0, 0, 9 / 10, 0, 0, 0, 0, 0, 0, 0, 9 / 10, 0, 0, 0, 0, 0, 0, 0, 0, 0, 0, 0, 0, 0, 0, 0, 0, 0, 0, 0, 0, 0, 4 / 5, 0, 0, 0, 0, 0, 0, 0, 0, 0, 0, 0, 4 / 5, 0, 0, 0, 0, 0, 0, 0, 0, 0, 0, 0, 0, 0, 0, 0, 0, 0, 7 / 10, 0, 0, 0, 0, 0, 7 / 10, 0, 0, 0]"
  by code_simp

lemma four_corr: "correlationsOf 8000 (normalizeFlux fluxFourPeaks) = [0, 49 / 9400, 0, 81 / 9200, 0, 1 / 90, 0, 2 / 275, 0, 0, 0]"
  unfolding four_norm
  by (simp add: correlationsOf_def minLagOf_def maxLagOf_def autocorrelate_zip)


lemma four_peaks:
  "sort_key (\<lambda>p. - value p) (peaksOf 8000 (normalizeFlux fluxFourPeaks)) =
     [\<lparr>lag = 10, value = 1 / 90, peak.bpm = 94\<rparr>, \<lparr>lag = 8, value = 81 / 9200, peak.bpm = 117\<rparr>,
      \<lparr>lag = 12, value = 2 / 275, peak.bpm = 78\<rparr>, \<lparr>lag = 6, value = 49 / 9400, peak.bpm = 156\<rparr>]"
  unfolding peaksOf_def four_corr
  by (simp add: findPeaks_def isPeak_def minLagOf_def js_round_def)

lemma four_length: "length fluxFourPeaks = 100"
  by (simp add: fluxFourPeaks_def)

lemma four_alternatives:
  "collectAlternatives 94
     [\<lparr>lag = 10, value = 1 / 90, peak.bpm = 94\<rparr>, \<lparr>lag = 8, value = 81 / 9200, peak.bpm = 117\<rparr>,
      \<lparr>lag = 12, value = 2 / 275, peak.bpm = 78\<rparr>, \<lparr>lag = 6, value = 49 / 9400, peak.bpm = 156\<rparr>]
   = [188, 117, 156, 78]"
  by (simp add: collectAlternatives_def addPeak_def foldAlt_def set_add_def set_delete_def js_round_def)

lemma four_result:
  "tempoFromFlux 8000 fluxFourPeaks =
     \<lparr>BPMResult.bpm = 94, confidence = 19225165 / 21579583, alternatives = [117, 156, 188]\<rparr>"
  unfolding tempoFromFlux_def four_length Let_def four_peaks four_corr
  by (simp add: foldPrimary_def four_alternatives)

section \<open>The alternatives as a list without repetition\<close>

lemma dedupe_snoc: "dedupe (xs @ [x]) = (if x \<in> set xs then dedupe xs else dedupe xs @ [x])"
  by (simp add: dedupe_def)

lemma set_dedupe: "set (dedupe xs) = set xs"
  by (simp add: dedupe_def)

lemma distinct_dedupe: "distinct (dedupe xs)"
  by (simp add: dedupe_def)

lemma set_add_dedupe: "set_add x (dedupe xs) = dedupe (xs @ [x])"
  by (simp add: set_add_def dedupe_snoc set_dedupe)

lemma fold_addPeak:
  "fold (addPeak b) ps (dedupe acc) =
     dedupe (acc @ filter (\<lambda>a. \<bar>a - b\<bar> > 5) (map (\<lambda>p. foldAlt (peak.bpm p)) ps))"
proof (induction ps arbitrary: acc)
  case Nil
  then show ?case by simp
next
  case (Cons p ps)
  show ?case
  proof (cases "\<bar>foldAlt (peak.bpm p) - b\<bar> > 5")
    case True
    then have "addPeak b p (dedupe acc) = dedupe (acc @ [foldAlt (peak.bpm p)])"
      by (simp add: addPeak_def Let_def set_add_dedupe)
    then show ?thesis using True Cons.IH [of "acc @ [foldAlt (peak.bpm p)]"] by simp
  next
    case False
    then have "addPeak b p (dedupe acc) = dedupe acc" by (simp add: addPeak_def Let_def)
    then show ?thesis using False Cons.IH [of acc] by simp
  qed
qed

lemma collectAlternatives_spec:
  "collectAlternatives b peaks = removeAll b (dedupe (alternativeCandidates b peaks))"
proof -
  let ?d = "if b * 2 \<le> 200 then [b * 2] else []"
  let ?h = "if real_of_int b / 2 \<ge> 50 then [js_round (real_of_int b / 2)] else []"
  have a1: "(if b * 2 \<le> 200 then set_add (b * 2) [] else []) = dedupe ?d"
    by (simp add: set_add_def dedupe_def)
  have a2: "(if real_of_int b / 2 \<ge> 50 then set_add (js_round (real_of_int b / 2)) (dedupe ?d) else dedupe ?d)
      = dedupe (?d @ ?h)"
    by (simp add: set_add_dedupe)
  show ?thesis
    unfolding collectAlternatives_def Let_def a1 a2 fold_addPeak alternativeCandidates_def set_delete_def
    by simp
qed

lemma autocorrelate_length: "length (autocorrelate sf maxLag l) \<le> Suc maxLag - l"
proof (induction sf maxLag l rule: autocorrelate.induct)
  case (1 sf maxLag l)
  show ?case
  proof (cases "l \<le> maxLag \<and> 2 * l < length sf")
    case True
    then have "length (autocorrelate sf maxLag l) = Suc (length (autocorrelate sf maxLag (l + 1)))"
      by (subst autocorrelate.simps) (simp add: Let_def)
    with "1.IH" [OF True refl] True show ?thesis by auto
  next
    case False
    then have "autocorrelate sf maxLag l = []" by (subst autocorrelate.simps) auto
    then show ?thesis by simp
  qed
qed

lemma peak_bpm_ge_60:
  assumes "p \<in> set (peaksOf rate sf)"
  shows "60 \<le> peak.bpm p"
proof -
  let ?fps = "rate / 512"
  let ?mn = "minLagOf ?fps" and ?mx = "maxLagOf ?fps"
  let ?cs = "correlationsOf rate sf"
  from assms obtain i where i: "i \<in> set [1..<length ?cs - 1]"
    and p: "p = \<lparr>lag = ?mn + i, value = ?cs ! i, peak.bpm = js_round ((60 * ?fps) / real (?mn + i))\<rparr>"
    by (auto simp: peaksOf_def findPeaks_def Let_def)
  have "length ?cs \<le> Suc ?mx - ?mn"
    unfolding correlationsOf_def Let_def by (rule autocorrelate_length)
  with i have lt: "?mn + i < ?mx" and i1: "1 \<le> i" by auto
  then have pos: "0 < ?mx" by simp
  then have "real ?mx \<le> ?fps" by (simp add: maxLagOf_def) linarith
  with lt have "real (?mn + i) + 1 \<le> ?fps" by linarith
  moreover have lagpos: "0 < real (?mn + i)" using i1 by simp
  ultimately have "60 * real (?mn + i) \<le> 60 * ?fps" by simp
  then have "60 \<le> (60 * ?fps) / real (?mn + i)" using lagpos by (simp add: le_divide_eq)
  then have "60 \<le> js_round ((60 * ?fps) / real (?mn + i))" unfolding js_round_def by linarith
  with p show ?thesis by simp
qed

lemma foldPrimary_ge_60: "60 \<le> b \<Longrightarrow> 60 \<le> foldPrimary b"
  unfolding foldPrimary_def Let_def js_round_def by (auto; linarith)

section \<open>The alternatives of the result\<close>

lemma rankedPeaks_four:
  "rankedPeaks 8000 fluxFourPeaks =
     [\<lparr>lag = 10, value = 1 / 90, peak.bpm = 94\<rparr>, \<lparr>lag = 8, value = 81 / 9200, peak.bpm = 117\<rparr>,
      \<lparr>lag = 12, value = 2 / 275, peak.bpm = 78\<rparr>, \<lparr>lag = 6, value = 49 / 9400, peak.bpm = 156\<rparr>]"
  unfolding rankedPeaks_def by (rule four_peaks)

lemma near_norm: "normalizeFlux fluxNearPeaks = [1, 0, 0, 0, 0, 0, 0, 0, 0, 0, 0, 0, 0, 0, 0, 0, 0, 1, 0, 0, 0, 0, 0, 0, 0, 0, 0, 0, 0, 0, 0, 0, 0, 0, 0, 0, 0, 0, 0, 0, 0, 0, 0, 0, 0, 0, 0, 0, 0, 0, 9 / 10, 0, 0, 0, 0, 0, 0, 0, 0, 0, 0, 0, 0, 0, 0, 0, 0, 0, 0, 0, 0, 9 / 10, 0, 0, 0, 0, 0, 0, 0, 0, 0, 0, 0, 0, 0, 0, 0, 0, 0, 0, 0, 0, 0, 0, 0, 0, 0, 0, 0, 0, 0, 0, 0, 0, 4 / 5, 0, 0, 0, 0, 0, 0, 0, 0, 0, 0, 4 / 5, 0, 0, 0, 0]"
  by code_simp

lemma near_corr:
  "correlationsOf 16000 (normalizeFlux fluxNearPeaks) =
     [0, 16 / 2725, 0, 0, 0, 0, 0, 1 / 103, 0, 0, 0, 9 / 1100, 0, 0, 0, 0, 0, 0, 0, 0, 0, 0]"
  unfolding near_norm
  by (simp add: correlationsOf_def minLagOf_def maxLagOf_def autocorrelate_zip)

lemma near_peaks:
  "rankedPeaks 16000 fluxNearPeaks =
     [\<lparr>lag = 17, value = 1 / 103, peak.bpm = 110\<rparr>, \<lparr>lag = 21, value = 9 / 1100, peak.bpm = 89\<rparr>,
      \<lparr>lag = 11, value = 16 / 2725, peak.bpm = 170\<rparr>]"
  unfolding rankedPeaks_def peaksOf_def near_corr
  by (simp add: findPeaks_def isPeak_def minLagOf_def js_round_def)

lemma near_length: "length fluxNearPeaks = 120"
  by (simp add: fluxNearPeaks_def)

lemma near_alternatives:
  "collectAlternatives 110
     [\<lparr>lag = 17, value = 1 / 103, peak.bpm = 110\<rparr>, \<lparr>lag = 21, value = 9 / 1100, peak.bpm = 89\<rparr>,
      \<lparr>lag = 11, value = 16 / 2725, peak.bpm = 170\<rparr>]
   = [55, 89, 85]"
  by (simp add: collectAlternatives_def addPeak_def foldAlt_def set_add_def set_delete_def js_round_def)

lemma near_result:
  "tempoFromFlux 16000 fluxNearPeaks =
     \<lparr>BPMResult.bpm = 110, confidence = 11721725 / 13080192, alternatives = [55, 85, 89]\<rparr>"
  unfolding tempoFromFlux_def near_length Let_def near_peaks [unfolded rankedPeaks_def] near_corr
  by (simp add: foldPrimary_def near_alternatives)

lemma tempoFromFlux_reached:
  assumes "\<not> length flux < 100" "rankedPeaks rate flux \<noteq> []"
  shows "BPMResult.bpm (tempoFromFlux rate flux) = foldPrimary (peak.bpm (rankedPeaks rate flux ! 0))"
    and "alternatives (tempoFromFlux rate flux) =
      sort (take 3 (collectAlternatives (foldPrimary (peak.bpm (rankedPeaks rate flux ! 0))) (rankedPeaks rate flux)))"
  using assms by (simp_all add: tempoFromFlux_def Let_def rankedPeaks_def)

lemma tempoFromFlux_not_reached:
  assumes "length flux < 100 \<or> rankedPeaks rate flux = []"
  shows "tempoFromFlux rate flux = degenerate"
  using assms by (auto simp: tempoFromFlux_def Let_def rankedPeaks_def)

text \<open>
  Claim C6, amended. What \<open>detectBPM\<close> returns is \<open>tempoFromFlux\<close> applied to the flux of
  the buffer.
  When it reaches the collection of alternatives (at least 100 flux values and a peak),
  the alternatives it returns are the candidate alternatives, deduplicated, without the
  primary tempo, truncated to the first three in the order of insertion (double, half,
  then the peaks by strength) and then sorted ascending.
\<close>

theorem alternatives_truncate_then_sort:
  assumes "\<not> length flux < 100" "rankedPeaks rate flux \<noteq> []"
  shows "alternatives (tempoFromFlux rate flux) =
     truncateThenSort (BPMResult.bpm (tempoFromFlux rate flux)) (rankedPeaks rate flux)"
  unfolding tempoFromFlux_reached [OF assms] truncateThenSort_def collectAlternatives_spec ..

text \<open>Claim C6, witness: the onset signal \<open>fluxFourPeaks\<close> at 8000 Hz.\<close>

theorem alternatives_truncate_then_sort_witness:
  "\<not> length fluxFourPeaks < 100 \<and> rankedPeaks 8000 fluxFourPeaks \<noteq> [] \<and>
   alternatives (tempoFromFlux 8000 fluxFourPeaks) = [117, 156, 188] \<and>
   truncateThenSort (BPMResult.bpm (tempoFromFlux 8000 fluxFourPeaks)) (rankedPeaks 8000 fluxFourPeaks) = [117, 156, 188]"
proof -
  have h1: "\<not> length fluxFourPeaks < 100" by (simp add: four_length)
  have h2: "rankedPeaks 8000 fluxFourPeaks \<noteq> []" by (simp add: rankedPeaks_four)
  have a: "alternatives (tempoFromFlux 8000 fluxFourPeaks) = [117, 156, 188]" by (simp add: four_result)
  from alternatives_truncate_then_sort [OF h1 h2] a h1 h2 show ?thesis by simp
qed

text \<open>
  Claim C6 as it is stated, with the sort before the truncation, fails on that signal: the
  candidates are 188, 117, 156 and 78 in the order of insertion, \<open>detectBPM\<close> returns
  117, 156, 188, and the three smallest are 78, 117, 156.
\<close>

theorem sort_then_truncate_counterexample:
  "alternatives (tempoFromFlux 8000 fluxFourPeaks) \<noteq>
     sortThenTruncate (BPMResult.bpm (tempoFromFlux 8000 fluxFourPeaks)) (rankedPeaks 8000 fluxFourPeaks)"
proof -
  have "sortThenTruncate 94 (rankedPeaks 8000 fluxFourPeaks) = [78, 117, 156]"
    unfolding rankedPeaks_four
    by (simp add: sortThenTruncate_def alternativeCandidates_def dedupe_def foldAlt_def js_round_def)
  then show ?thesis by (simp add: four_result)
qed

lemma rankedPeaks_bpm_ge_60:
  assumes "rankedPeaks rate flux \<noteq> []"
  shows "60 \<le> peak.bpm (rankedPeaks rate flux ! 0)"
proof -
  have "rankedPeaks rate flux ! 0 \<in> set (rankedPeaks rate flux)" using assms by simp
  then have "rankedPeaks rate flux ! 0 \<in> set (peaksOf rate (normalizeFlux flux))"
    by (simp add: rankedPeaks_def)
  then show ?thesis by (rule peak_bpm_ge_60)
qed

lemma alternativeCandidates_far:
  assumes "60 \<le> b" "a \<in> set (alternativeCandidates b peaks)"
  shows "5 < \<bar>a - b\<bar>"
proof -
  from assms(2) consider "a = b * 2" | "real_of_int b / 2 \<ge> 50" "a = js_round (real_of_int b / 2)"
    | "5 < \<bar>a - b\<bar>"
    by (auto simp: alternativeCandidates_def split: if_splits)
  then show ?thesis
  proof cases
    case 1
    with assms(1) show ?thesis by simp
  next
    case 2
    then have "real_of_int a \<le> real_of_int b / 2 + 1 / 2" unfolding js_round_def by linarith
    with 2(1) have "real_of_int a + 5 < real_of_int b" by linarith
    then show ?thesis by linarith
  next
    case 3
    then show ?thesis .
  qed
qed

text \<open>
  Claim C7, amended. For every flux and rate, the alternatives of the result never contain
  the primary tempo, are at most three, are strictly ascending, and each differs from the
  primary tempo by more than 5.
\<close>

theorem alternatives_invariant:
  "BPMResult.bpm (tempoFromFlux rate flux) \<notin> set (alternatives (tempoFromFlux rate flux)) \<and>
   length (alternatives (tempoFromFlux rate flux)) \<le> 3 \<and>
   sorted_wrt (<) (alternatives (tempoFromFlux rate flux)) \<and>
   (\<forall>a\<in>set (alternatives (tempoFromFlux rate flux)). 5 < \<bar>a - BPMResult.bpm (tempoFromFlux rate flux)\<bar>)"
proof (cases "length flux < 100 \<or> rankedPeaks rate flux = []")
  case True
  then have "tempoFromFlux rate flux = degenerate" by (rule tempoFromFlux_not_reached)
  then show ?thesis by (simp add: degenerate_def)
next
  case False
  then have r: "\<not> length flux < 100" "rankedPeaks rate flux \<noteq> []" by simp_all
  let ?b = "foldPrimary (peak.bpm (rankedPeaks rate flux ! 0))"
  let ?all = "removeAll ?b (dedupe (alternativeCandidates ?b (rankedPeaks rate flux)))"
  have b: "BPMResult.bpm (tempoFromFlux rate flux) = ?b" by (rule tempoFromFlux_reached(1) [OF r])
  have a: "alternatives (tempoFromFlux rate flux) = sort (take 3 ?all)"
    unfolding tempoFromFlux_reached(2) [OF r] collectAlternatives_spec ..
  have sub: "set (take 3 ?all) \<subseteq> set (alternativeCandidates ?b (rankedPeaks rate flux)) - {?b}"
    using set_take_subset [of 3 ?all] by (auto simp: set_dedupe)
  have b60: "60 \<le> ?b" using rankedPeaks_bpm_ge_60 [OF r(2)] by (rule foldPrimary_ge_60)
  have 1: "?b \<notin> set (sort (take 3 ?all))" using sub by auto
  have 2: "length (sort (take 3 ?all)) \<le> 3" by simp
  have "distinct (take 3 ?all)" by (simp add: distinct_dedupe distinct_removeAll)
  then have 3: "sorted_wrt (<) (sort (take 3 ?all))" by (simp add: strict_sorted_iff)
  have 4: "\<forall>a\<in>set (sort (take 3 ?all)). 5 < \<bar>a - ?b\<bar>"
    using sub alternativeCandidates_far [OF b60] by auto
  from 1 2 3 4 show ?thesis unfolding a b by blast
qed

text \<open>Claim C7, witness: the onset signal \<open>fluxNearPeaks\<close> at 16000 Hz.\<close>

theorem alternatives_invariant_witness:
  "tempoFromFlux 16000 fluxNearPeaks =
     \<lparr>BPMResult.bpm = 110, confidence = 11721725 / 13080192, alternatives = [55, 85, 89]\<rparr> \<and>
   (110::int) \<notin> set [55, 85, 89] \<and> length [55, 85, 89 :: int] \<le> 3 \<and> sorted_wrt (<) [55, 85, 89 :: int] \<and>
   5 < \<bar>55 - 110 :: int\<bar> \<and> 5 < \<bar>85 - 110 :: int\<bar> \<and> 5 < \<bar>89 - 110 :: int\<bar>"
  using alternatives_invariant [of 16000 fluxNearPeaks] by (simp add: near_result)

text \<open>
  Claim C7 as it is stated fails in its last part: on that signal the alternatives are
  55, 85 and 89, and 85 and 89 are 4 apart. Nothing in \<open>detectBPM\<close> compares two
  alternatives with each other.
\<close>

theorem alternatives_mutual_counterexample:
  "\<not> (\<forall>a\<in>set (alternatives (tempoFromFlux 16000 fluxNearPeaks)).
        \<forall>a'\<in>set (alternatives (tempoFromFlux 16000 fluxNearPeaks)). a \<noteq> a' \<longrightarrow> 5 < \<bar>a - a'\<bar>)"
  by (simp add: near_result)

section \<open>Scaling the input of the transform\<close>

text \<open>
  On arrays whose length is a power of two, every index the transform reads or writes is
  inside the arrays, and the transform commutes with the multiplication of both arrays by
  a constant. The lemmas carry the bounds on the indices through the loops: \<open>j < n\<close> in
  the bit reversal, \<open>i + len \<le> n\<close> in the butterflies.
\<close>

lemma carry_bound: "j < 2 * 2 ^ k \<Longrightarrow> snd (carry (2 ^ k) j) + fst (carry (2 ^ k) j) < 2 * 2 ^ k"
proof (induction k arbitrary: j)
  case 0
  then have "j = 0 \<or> j = 1" by auto
  then show ?case
  proof
    assume "j = 0"
    then show ?thesis by (simp add: carry.simps)
  next
    assume "j = 1"
    then have "carry (2 ^ 0) j = carry 0 0" by (subst carry.simps) simp
    then show ?thesis by (simp add: carry.simps)
  qed
next
  case (Suc k)
  show ?case
  proof (cases "j \<ge> 2 ^ Suc k")
    case True
    then have "carry (2 ^ Suc k) j = carry (2 ^ k) (j - 2 ^ Suc k)"
      by (subst carry.simps) simp
    moreover have "j - 2 ^ Suc k < 2 * 2 ^ k" using Suc.prems True by simp
    ultimately show ?thesis using Suc.IH [of "j - 2 ^ Suc k"] by simp
  next
    case False
    then have "carry (2 ^ Suc k) j = (2 ^ Suc k, j)" by (subst carry.simps) simp
    with False show ?thesis by simp
  qed
qed

lemma swap_length: "length (swap i j a) = length a"
  by (simp add: swap_def)

lemma swap_map: "i < length a \<Longrightarrow> j < length a \<Longrightarrow> swap i j (map f a) = map f (swap i j a)"
  by (simp add: swap_def map_update)

lemma bitReverse_scale:
  assumes "n = 2 * 2 ^ k" "length re = n" "length im = n" "j < n"
  shows "bitReverse n i j (map f re) (map f im) =
           (map f (fst (bitReverse n i j re im)), map f (snd (bitReverse n i j re im))) \<and>
         length (fst (bitReverse n i j re im)) = n \<and> length (snd (bitReverse n i j re im)) = n"
  using assms
proof (induction n i j re im rule: bitReverse.induct)
  case (1 n i j re im)
  show ?case
  proof (cases "i < n")
    case True
    let ?re' = "if i < j then swap i j re else re"
    let ?im' = "if i < j then swap i j im else im"
    let ?mj = "carry (n div 2) j"
    have nd: "n div 2 = 2 ^ k" using "1.prems"(1) by simp
    have j': "snd ?mj + fst ?mj < n" unfolding nd using carry_bound [of j k] "1.prems"(1,4) by simp
    have l: "length ?re' = n" "length ?im' = n" using "1.prems" by (simp_all add: swap_length)
    have m: "(if i < j then swap i j (map f re) else map f re) = map f ?re'"
      "(if i < j then swap i j (map f im) else map f im) = map f ?im'"
      using True "1.prems" by (simp_all add: swap_map)
    have IH: "bitReverse n (i + 1) (snd ?mj + fst ?mj) (map f ?re') (map f ?im') =
           (map f (fst (bitReverse n (i + 1) (snd ?mj + fst ?mj) ?re' ?im')),
            map f (snd (bitReverse n (i + 1) (snd ?mj + fst ?mj) ?re' ?im'))) \<and>
         length (fst (bitReverse n (i + 1) (snd ?mj + fst ?mj) ?re' ?im')) = n \<and>
         length (snd (bitReverse n (i + 1) (snd ?mj + fst ?mj) ?re' ?im')) = n"
      by (rule "1.IH" [OF True refl refl refl "1.prems"(1) l j'])
    have u1: "bitReverse n i j re im = bitReverse n (i + 1) (snd ?mj + fst ?mj) ?re' ?im'"
      using True by (subst bitReverse.simps) (simp add: Let_def)
    have u2: "bitReverse n i j (map f re) (map f im) =
        bitReverse n (i + 1) (snd ?mj + fst ?mj) (map f ?re') (map f ?im')"
      using True by (subst bitReverse.simps) (simp add: Let_def m del: if_split)
    show ?thesis unfolding u1 u2 by (rule IH)
  next
    case False
    then have "bitReverse n i j re im = (re, im)"
      "bitReverse n i j (map f re) (map f im) = (map f re, map f im)"
      by (subst bitReverse.simps, simp)+
    then show ?thesis using "1.prems" by simp
  qed
qed

lemma butterflies_scale:
  assumes "length re = n" "length im = n" "i + 2 * h \<le> n"
  shows "butterflies i h wr wi j cr ci (map ((*) c) re) (map ((*) c) im) =
           (map ((*) c) (fst (butterflies i h wr wi j cr ci re im)),
            map ((*) c) (snd (butterflies i h wr wi j cr ci re im))) \<and>
         length (fst (butterflies i h wr wi j cr ci re im)) = n \<and>
         length (snd (butterflies i h wr wi j cr ci re im)) = n"
  using assms
proof (induction i h wr wi j cr ci re im rule: butterflies.induct)
  case (1 i h wr wi j cr ci re im)
  show ?case
  proof (cases "j < h")
    case True
    let ?tR = "cr * re ! (i + j + h) - ci * im ! (i + j + h)"
    let ?tI = "cr * im ! (i + j + h) + ci * re ! (i + j + h)"
    let ?re' = "re[i + j := re ! (i + j) + ?tR, i + j + h := re ! (i + j) - ?tR]"
    let ?im' = "im[i + j := im ! (i + j) + ?tI, i + j + h := im ! (i + j) - ?tI]"
    let ?nR = "cr * wr - ci * wi" and ?nI = "cr * wi + ci * wr"
    have r: "i + j < n" "i + j + h < n" using True "1.prems"(3) by simp_all
    have l: "length ?re' = n" "length ?im' = n" using "1.prems" by simp_all
    have u1: "butterflies i h wr wi j cr ci re im = butterflies i h wr wi (j + 1) ?nR ?nI ?re' ?im'"
      using True by (subst butterflies.simps) (simp add: Let_def)
    have sR: "(map ((*) c) re)[i + j := map ((*) c) re ! (i + j) +
                 (cr * map ((*) c) re ! (i + j + h) - ci * map ((*) c) im ! (i + j + h)),
               i + j + h := map ((*) c) re ! (i + j) -
                 (cr * map ((*) c) re ! (i + j + h) - ci * map ((*) c) im ! (i + j + h))]
        = map ((*) c) ?re'"
      using r "1.prems"(1,2) by (simp add: map_update algebra_simps)
    have sI: "(map ((*) c) im)[i + j := map ((*) c) im ! (i + j) +
                 (cr * map ((*) c) im ! (i + j + h) + ci * map ((*) c) re ! (i + j + h)),
               i + j + h := map ((*) c) im ! (i + j) -
                 (cr * map ((*) c) im ! (i + j + h) + ci * map ((*) c) re ! (i + j + h))]
        = map ((*) c) ?im'"
      using r "1.prems"(1,2) by (simp add: map_update algebra_simps)
    have u2: "butterflies i h wr wi j cr ci (map ((*) c) re) (map ((*) c) im) =
        butterflies i h wr wi (j + 1) ?nR ?nI (map ((*) c) ?re') (map ((*) c) ?im')"
      using True by (subst butterflies.simps) (simp only: Let_def if_True sR sI)
    have IH: "butterflies i h wr wi (j + 1) ?nR ?nI (map ((*) c) ?re') (map ((*) c) ?im') =
           (map ((*) c) (fst (butterflies i h wr wi (j + 1) ?nR ?nI ?re' ?im')),
            map ((*) c) (snd (butterflies i h wr wi (j + 1) ?nR ?nI ?re' ?im'))) \<and>
         length (fst (butterflies i h wr wi (j + 1) ?nR ?nI ?re' ?im')) = n \<and>
         length (snd (butterflies i h wr wi (j + 1) ?nR ?nI ?re' ?im')) = n"
      by (rule "1.IH" [OF True refl refl refl refl refl refl refl refl l "1.prems"(3)])
    show ?thesis unfolding u1 u2 by (rule IH)
  next
    case False
    then have "butterflies i h wr wi j cr ci re im = (re, im)"
      "butterflies i h wr wi j cr ci (map ((*) c) re) (map ((*) c) im) = (map ((*) c) re, map ((*) c) im)"
      by (subst butterflies.simps, simp)+
    then show ?thesis using "1.prems" by simp
  qed
qed

lemma dvd_step: "len dvd n \<Longrightarrow> len dvd i \<Longrightarrow> i < n \<Longrightarrow> i + len \<le> (n::nat)"
proof -
  assume a: "len dvd n" "len dvd i" "i < n"
  from a(1) obtain p where p: "n = len * p" ..
  from a(2) obtain q where q: "i = len * q" ..
  from a(3) p q have "q < p" by (metis mult_less_cancel1)
  then have "len * (q + 1) \<le> len * p" by (intro mult_le_mono2) simp
  with p q show ?thesis by (simp add: algebra_simps)
qed

lemma blocks_scale:
  assumes "length re = n" "length im = n" "len dvd n" "len dvd i"
  shows "blocks n len wr wi i (map ((*) c) re) (map ((*) c) im) =
           (map ((*) c) (fst (blocks n len wr wi i re im)),
            map ((*) c) (snd (blocks n len wr wi i re im))) \<and>
         length (fst (blocks n len wr wi i re im)) = n \<and>
         length (snd (blocks n len wr wi i re im)) = n"
  using assms
proof (induction n len wr wi i re im rule: blocks.induct)
  case (1 n len wr wi i re im)
  show ?case
  proof (cases "i < n \<and> 0 < len")
    case True
    let ?r = "butterflies i (len div 2) wr wi 0 1 0 re im"
    have le: "i + 2 * (len div 2) \<le> n"
      using dvd_step [OF "1.prems"(3,4)] True by linarith
    note b = butterflies_scale [OF "1.prems"(1,2) le, of wr wi 0 1 0 c]
    note b1 = b [THEN conjunct1] and b2 = b [THEN conjunct2, THEN conjunct1]
      and b3 = b [THEN conjunct2, THEN conjunct2]
    have u1: "blocks n len wr wi i re im = blocks n len wr wi (i + len) (fst ?r) (snd ?r)"
      by (subst blocks.simps) (simp only: True if_True Let_def simp_thms)
    have u2: "blocks n len wr wi i (map ((*) c) re) (map ((*) c) im) =
        blocks n len wr wi (i + len) (map ((*) c) (fst ?r)) (map ((*) c) (snd ?r))"
      by (subst blocks.simps) (simp only: True if_True Let_def simp_thms b1 fst_conv snd_conv)
    have d: "len dvd i + len" using "1.prems"(4) by simp
    have IH: "blocks n len wr wi (i + len) (map ((*) c) (fst ?r)) (map ((*) c) (snd ?r)) =
           (map ((*) c) (fst (blocks n len wr wi (i + len) (fst ?r) (snd ?r))),
            map ((*) c) (snd (blocks n len wr wi (i + len) (fst ?r) (snd ?r)))) \<and>
         length (fst (blocks n len wr wi (i + len) (fst ?r) (snd ?r))) = n \<and>
         length (snd (blocks n len wr wi (i + len) (fst ?r) (snd ?r))) = n"
      by (rule "1.IH" [OF True refl b2 b3 "1.prems"(3) d])
    show ?thesis unfolding u1 u2 by (rule IH)
  next
    case False
    have "blocks n len wr wi i re im = (re, im)"
      using False by (subst blocks.simps) auto
    moreover have "blocks n len wr wi i (map ((*) c) re) (map ((*) c) im) = (map ((*) c) re, map ((*) c) im)"
      using False by (subst blocks.simps) auto
    ultimately show ?thesis using "1.prems" by simp
  qed
qed


lemma stages_scale:
  assumes "length re = n" "length im = n" "n = 2 ^ k" "len = 2 ^ s"
  shows "stages n len (map ((*) c) re) (map ((*) c) im) =
           (map ((*) c) (fst (stages n len re im)), map ((*) c) (snd (stages n len re im))) \<and>
         length (fst (stages n len re im)) = n \<and> length (snd (stages n len re im)) = n"
  using assms
proof (induction n len re im arbitrary: s rule: stages.induct)
  case (1 n len re im)
  show ?case
  proof (cases "len \<le> n \<and> 0 < len")
    case True
    let ?wr = "cos ((- 2 * pi) / real len)" and ?wi = "sin ((- 2 * pi) / real len)"
    let ?r = "blocks n len ?wr ?wi 0 re im"
    have "s \<le> k" using True "1.prems"(3,4) by simp
    then have dv: "len dvd n" unfolding "1.prems"(3,4) by (rule le_imp_power_dvd)
    have d0: "len dvd 0" by simp
    note b = blocks_scale [OF "1.prems"(1,2) dv d0, of ?wr ?wi c]
    note b1 = b [THEN conjunct1] and b2 = b [THEN conjunct2, THEN conjunct1]
      and b3 = b [THEN conjunct2, THEN conjunct2]
    have u1: "stages n len re im = stages n (2 * len) (fst ?r) (snd ?r)"
      by (subst stages.simps) (simp only: True if_True Let_def simp_thms)
    have u2: "stages n len (map ((*) c) re) (map ((*) c) im) =
        stages n (2 * len) (map ((*) c) (fst ?r)) (map ((*) c) (snd ?r))"
      by (subst stages.simps) (simp only: True if_True Let_def simp_thms b1 fst_conv snd_conv)
    have p: "2 * len = 2 ^ Suc s" using "1.prems"(4) by simp
    have IH: "stages n (2 * len) (map ((*) c) (fst ?r)) (map ((*) c) (snd ?r)) =
           (map ((*) c) (fst (stages n (2 * len) (fst ?r) (snd ?r))),
            map ((*) c) (snd (stages n (2 * len) (fst ?r) (snd ?r)))) \<and>
         length (fst (stages n (2 * len) (fst ?r) (snd ?r))) = n \<and>
         length (snd (stages n (2 * len) (fst ?r) (snd ?r))) = n"
      by (rule "1.IH" [OF True refl refl refl refl b2 b3 "1.prems"(3) p])
    show ?thesis unfolding u1 u2 by (rule IH)
  next
    case False
    have "stages n len re im = (re, im)"
      using False by (subst stages.simps) auto
    moreover have "stages n len (map ((*) c) re) (map ((*) c) im) = (map ((*) c) re, map ((*) c) im)"
      using False by (subst stages.simps) auto
    ultimately show ?thesis using "1.prems" by simp
  qed
qed

lemma fft_scale:
  assumes "length re = 2 ^ k" "length im = 2 ^ k"
  shows "fft (map ((*) c) re) (map ((*) c) im) =
           (map ((*) c) (fst (fft re im)), map ((*) c) (snd (fft re im))) \<and>
         length (fst (fft re im)) = 2 ^ k \<and> length (snd (fft re im)) = 2 ^ k"
proof (cases k)
  case 0
  with assms show ?thesis by (simp add: fft_def)
next
  case (Suc k')
  let ?n = "(2::nat) ^ k"
  let ?r = "bitReverse ?n 0 0 re im"
  have n: "?n = 2 * 2 ^ k'" using Suc by simp
  have "(1::nat) \<le> 2 ^ k'" by simp
  with n have gt: "\<not> ?n \<le> 1" by linarith
  have pos: "0 < ?n" by simp
  note b = bitReverse_scale [OF n assms pos, of 0 "(*) c"]
  note b1 = b [THEN conjunct1] and b2 = b [THEN conjunct2, THEN conjunct1]
    and b3 = b [THEN conjunct2, THEN conjunct2]
  have s2: "(2::nat) = 2 ^ 1" by simp
  note st = stages_scale [OF b2 b3 refl s2, of c]
  have u1: "fft re im = stages ?n 2 (fst ?r) (snd ?r)"
    unfolding fft_def Let_def assms(1) using gt by simp
  have u2: "fft (map ((*) c) re) (map ((*) c) im) = stages ?n 2 (map ((*) c) (fst ?r)) (map ((*) c) (snd ?r))"
    unfolding fft_def Let_def length_map assms(1) b1 using gt by simp
  show ?thesis unfolding u1 u2 by (rule st)
qed

lemma sqrt_scale: "sqrt (c * x * (c * x) + c * y * (c * y)) = \<bar>c\<bar> * sqrt (x * x + y * y)"
proof -
  have "c * x * (c * x) + c * y * (c * y) = c\<^sup>2 * (x * x + y * y)"
    by (simp add: power2_eq_square algebra_simps)
  then show ?thesis by (simp add: real_sqrt_mult)
qed

lemma getMagnitudeSpectrum_length: "length (getMagnitudeSpectrum s F) = F div 2"
  by (simp add: getMagnitudeSpectrum_def Let_def)

lemma getMagnitudeSpectrum_scale:
  assumes "F = 2 ^ k"
  shows "getMagnitudeSpectrum (map ((*) c) s) F = map ((*) \<bar>c\<bar>) (getMagnitudeSpectrum s F)"
proof -
  let ?re0 = "map (\<lambda>i. (if i < length s then s ! i else 0) * hann F i) [0..<F]"
  let ?im0 = "replicate F (0::real)"
  let ?r = "fft ?re0 ?im0"
  have re: "map (\<lambda>i. (if i < length (map ((*) c) s) then map ((*) c) s ! i else 0) * hann F i) [0..<F]
      = map ((*) c) ?re0"
    by (simp add: algebra_simps)
  have im: "?im0 = map ((*) c) ?im0" by simp
  have l: "length ?re0 = 2 ^ k" "length ?im0 = 2 ^ k" using assms by simp_all
  note f = fft_scale [OF l, of c]
  note f1 = f [THEN conjunct1] and f2 = f [THEN conjunct2, THEN conjunct1]
    and f3 = f [THEN conjunct2, THEN conjunct2]
  have "fft (map ((*) c) ?re0) ?im0 = (map ((*) c) (fst ?r), map ((*) c) (snd ?r))"
    using f1 im by simp
  then have g: "getMagnitudeSpectrum (map ((*) c) s) F =
      map (\<lambda>i. sqrt (map ((*) c) (fst ?r) ! i * map ((*) c) (fst ?r) ! i +
                      map ((*) c) (snd ?r) ! i * map ((*) c) (snd ?r) ! i)) [0..<F div 2]"
    unfolding getMagnitudeSpectrum_def Let_def re by simp
  have "map (\<lambda>i. sqrt (map ((*) c) (fst ?r) ! i * map ((*) c) (fst ?r) ! i +
                      map ((*) c) (snd ?r) ! i * map ((*) c) (snd ?r) ! i)) [0..<F div 2]
      = map (\<lambda>i. \<bar>c\<bar> * sqrt (fst ?r ! i * fst ?r ! i + snd ?r ! i * snd ?r ! i)) [0..<F div 2]"
  proof (rule map_cong [OF refl])
    fix i assume "i \<in> set [0..<F div 2]"
    then have "i < length (fst ?r)" "i < length (snd ?r)" using f2 f3 assms by simp_all
    then show "sqrt (map ((*) c) (fst ?r) ! i * map ((*) c) (fst ?r) ! i +
                      map ((*) c) (snd ?r) ! i * map ((*) c) (snd ?r) ! i)
        = \<bar>c\<bar> * sqrt (fst ?r ! i * fst ?r ! i + snd ?r ! i * snd ?r ! i)"
      by (simp add: sqrt_scale)
  qed
  then show ?thesis unfolding g by (simp add: getMagnitudeSpectrum_def Let_def)
qed

lemma getMagnitudeSpectrum_silence:
  assumes "F = 2 ^ k"
  shows "getMagnitudeSpectrum (replicate m 0) F = replicate (F div 2) 0"
proof -
  have "replicate m (0::real) = map ((*) 0) (replicate m 0)" by simp
  then have "getMagnitudeSpectrum (replicate m 0) F = map ((*) \<bar>0\<bar>) (getMagnitudeSpectrum (replicate m 0) F)"
    using getMagnitudeSpectrum_scale [OF assms, of 0 "replicate m 0"] by simp
  also have "\<dots> = replicate (F div 2) 0"
  proof -
    have "map ((*) (0::real)) xs = replicate (length xs) 0" for xs
      by (induction xs) simp_all
    then show ?thesis by (simp add: getMagnitudeSpectrum_length)
  qed
  finally show ?thesis .
qed

lemma pow_2048: "(2048::nat) = 2 ^ 11" by simp
lemma pow_8192: "(8192::nat) = 2 ^ 13" by simp

lemma slice_map: "slice (map f data) a b = map f (slice data a b)"
  by (simp add: slice_def take_map drop_map)

lemma slice_replicate: "slice (replicate L x) a b = replicate (min (b - a) (L - a)) x"
  by (simp add: slice_def)

section \<open>Silence\<close>

lemma sum_list_zero: "\<forall>x\<in>set xs. f x = (0::real) \<Longrightarrow> sum_list (map f xs) = 0"
  by (induction xs) simp_all

lemma chromaBin_silence: "bin < n \<Longrightarrow> chromaBin r F (replicate n 0) bin c = c"
  by (simp add: chromaBin_def Let_def)

lemma chromaFrame_silence: "chromaFrame r F (replicate n 0) c = c"
proof -
  have "set bins \<subseteq> {..<n} \<Longrightarrow> fold (chromaBin r F (replicate n 0)) bins c = c" for bins c
    by (induction bins arbitrary: c) (simp_all add: chromaBin_silence)
  moreover have "set [1..<n] \<subseteq> {..<n}" by auto
  ultimately show ?thesis unfolding chromaFrame_def by simp
qed

lemma accumulateChroma_silence:
  "accumulateChroma \<lparr>sampleRate = r, channelData = replicate L 0\<rparr> = replicate 12 0"
proof -
  have m: "getMagnitudeSpectrum (slice (replicate L 0) start (start + 8192)) 8192 = replicate 4096 0" for start
    unfolding slice_replicate using getMagnitudeSpectrum_silence [OF pow_8192] by simp
  have "fold (\<lambda>start chroma. chromaFrame r 8192 (replicate 4096 0) chroma) starts c = c"
    for starts :: "nat list" and c
    by (induction starts) (simp_all add: chromaFrame_silence)
  then show ?thesis by (simp add: accumulateChroma_def m)
qed

lemma fluxOf_silence: "fluxOf (replicate n 0) (replicate n 0) = 0"
proof -
  have "(\<Sum>i\<leftarrow>[0..<n]. (let diff = replicate n (0::real) ! i - replicate n 0 ! i in if diff > 0 then diff else 0)) = 0"
    by (rule sum_list_zero) simp
  then show ?thesis by (simp add: fluxOf_def)
qed

lemma fluxStep_silence:
  assumes "fst st = None \<or> fst st = Some (replicate 1024 0)" "\<forall>x\<in>set (snd st). x = 0"
  shows "fst (fluxStep (replicate L 0) start st) = Some (replicate 1024 0) \<and>
         (\<forall>x\<in>set (snd (fluxStep (replicate L 0) start st)). x = 0)"
proof -
  have m: "getMagnitudeSpectrum (slice (replicate L 0) start (start + 2048)) 2048 = replicate 1024 0"
    unfolding slice_replicate using getMagnitudeSpectrum_silence [OF pow_2048] by simp
  from assms show ?thesis
    by (auto simp: fluxStep_def m fluxOf_silence)
qed

lemma fold_fluxStep_silence:
  assumes "fst st = None \<or> fst st = Some (replicate 1024 0)" "\<forall>x\<in>set (snd st). x = 0"
  shows "\<forall>x\<in>set (snd (fold (fluxStep (replicate L 0)) starts st)). x = 0"
  using assms
proof (induction starts arbitrary: st)
  case Nil
  then show ?case by simp
next
  case (Cons s starts)
  from fluxStep_silence [OF Cons.prems, of L s]
  have "fst (fluxStep (replicate L 0) s st) = None \<or> fst (fluxStep (replicate L 0) s st) = Some (replicate 1024 0)"
    "\<forall>x\<in>set (snd (fluxStep (replicate L 0) s st)). x = 0" by simp_all
  from Cons.IH [OF this] show ?case by simp
qed

lemma computeSpectralFlux_silence: "\<forall>x\<in>set (computeSpectralFlux (replicate L 0)). x = 0"
  unfolding computeSpectralFlux_def by (rule fold_fluxStep_silence) simp_all

lemma autocorrelate_silence:
  "(\<forall>x\<in>set sf. x = 0) \<longrightarrow> (\<forall>x\<in>set (autocorrelate sf mx l). x = 0)"
proof (induction sf mx l rule: autocorrelate.induct)
  case (1 sf' mx l)
  show ?case
  proof (cases "l \<le> mx \<and> 2 * l < length sf'")
    case True
    have z: "(\<Sum>i\<leftarrow>[0..<length sf' - l]. sf' ! i * sf' ! (i + l)) = 0" if "\<forall>x\<in>set sf'. x = 0"
      using that by (intro sum_list_zero) simp
    have eq: "autocorrelate sf' mx l =
        (\<Sum>i\<leftarrow>[0..<length sf' - l]. sf' ! i * sf' ! (i + l)) / real (length sf' - l) # autocorrelate sf' mx (l + 1)"
      using True by (subst autocorrelate.simps) (simp add: Let_def)
    show ?thesis
    proof
      assume a: "\<forall>x\<in>set sf'. x = 0"
      with "1.IH" [OF True refl] have "\<forall>x\<in>set (autocorrelate sf' mx (l + 1)). x = 0" by simp
      with z [OF a] show "\<forall>x\<in>set (autocorrelate sf' mx l). x = 0" unfolding eq by simp
    qed
  next
    case False
    then have "autocorrelate sf' mx l = []" by (subst autocorrelate.simps) auto
    then show ?thesis by simp
  qed
qed

section \<open>The analysis of silence\<close>

lemma no_peak_rankedPeaks:
  assumes "\<forall>i. 1 \<le> i \<and> i + 1 < length (correlationsOf rate (normalizeFlux flux)) \<longrightarrow>
     \<not> isPeak (correlationsOf rate (normalizeFlux flux)) i"
  shows "rankedPeaks rate flux = []"
proof -
  let ?cs = "correlationsOf rate (normalizeFlux flux)"
  have "\<forall>i\<in>set [1..<length ?cs - 1]. \<not> isPeak ?cs i" using assms by auto
  then have "filter (isPeak ?cs) [1..<length ?cs - 1] = []" by (simp add: filter_empty_conv)
  then show ?thesis by (simp add: rankedPeaks_def peaksOf_def findPeaks_def Let_def)
qed

lemma normalizeFlux_silence: "\<forall>x\<in>set flux. x = 0 \<Longrightarrow> normalizeFlux flux = flux"
proof (cases "flux = []")
  case True
  then show ?thesis by (simp add: normalizeFlux_def Let_def)
next
  case False
  assume z: "\<forall>x\<in>set flux. x = 0"
  have "Max (set flux) \<in> set flux" using False by simp
  with z have "Max (set flux) = 0" by blast
  then show ?thesis by (simp add: normalizeFlux_def)
qed

lemma silence_no_peak:
  assumes "\<forall>x\<in>set flux. x = 0"
  shows "\<forall>i. 1 \<le> i \<and> i + 1 < length (correlationsOf rate (normalizeFlux flux)) \<longrightarrow>
     \<not> isPeak (correlationsOf rate (normalizeFlux flux)) i"
proof (intro allI impI)
  fix i
  let ?cs = "correlationsOf rate (normalizeFlux flux)"
  assume i: "1 \<le> i \<and> i + 1 < length ?cs"
  have z: "\<forall>x\<in>set ?cs. x = 0"
    unfolding correlationsOf_def Let_def normalizeFlux_silence [OF assms]
    using autocorrelate_silence assms by blast
  from i have "i < length ?cs" "i - 1 < length ?cs" by linarith+
  then have "?cs ! i \<in> set ?cs" "?cs ! (i - 1) \<in> set ?cs" by (simp_all only: nth_mem)
  with z have "?cs ! i = 0" "?cs ! (i - 1) = 0" by blast+
  then show "\<not> isPeak ?cs i" by (simp add: isPeak_def)
qed

lemma tempoFromFlux_silence: "\<forall>x\<in>set flux. x = 0 \<Longrightarrow> tempoFromFlux rate flux = degenerate"
  by (intro tempoFromFlux_not_reached disjI2 no_peak_rankedPeaks silence_no_peak)

lemma fold_fluxStep_length:
  "length (snd (fold (fluxStep data) starts st)) =
     length (snd st) + (case fst st of None \<Rightarrow> length starts - 1 | Some p \<Rightarrow> length starts)"
proof (induction starts arbitrary: st)
  case Nil
  then show ?case by (simp split: option.split)
next
  case (Cons s starts)
  show ?case
    by (simp add: Cons.IH) (simp add: fluxStep_def Let_def split: option.split)
qed

lemma computeSpectralFlux_length:
  "length (computeSpectralFlux data) = length (frameStarts 2048 512 (length data) 0) - 1"
  by (simp add: computeSpectralFlux_def fold_fluxStep_length)

lemma detectBPM_returns:
  assumes "length (computeSpectralFlux (channelData ab)) < 100 \<or>
     length (computeSpectralFlux (channelData ab)) \<le> maxArguments"
  shows "detectBPM maxArguments ab =
     Inr (tempoFromFlux (sampleRate ab) (computeSpectralFlux (channelData ab)))"
  using assms by (auto simp: detectBPM_def Let_def)

lemma detectBPM_throws:
  assumes "100 \<le> length (computeSpectralFlux (channelData ab))"
    "maxArguments < length (computeSpectralFlux (channelData ab))"
  shows "detectBPM maxArguments ab = Inl RangeError"
  using assms by (simp add: detectBPM_def Let_def)

lemma correlationsOf_length: "length (correlationsOf rate flux) \<le> length flux"
proof -
  have "length (autocorrelate sf mx l) \<le> length sf - 2 * l" for sf mx l
  proof (induction sf mx l rule: autocorrelate.induct)
    case (1 sf mx l)
    show ?case
    proof (cases "l \<le> mx \<and> 2 * l < length sf")
      case True
      then have "length (autocorrelate sf mx l) = Suc (length (autocorrelate sf mx (l + 1)))"
        by (subst autocorrelate.simps) (simp add: Let_def)
      moreover from True have "2 * l < length sf" by simp
      ultimately show ?thesis using "1.IH" [OF True refl] by arith
    next
      case False
      then have "autocorrelate sf mx l = []" by (subst autocorrelate.simps) auto
      then show ?thesis by simp
    qed
  qed
  from this [of flux "maxLagOf (rate / 512)" "minLagOf (rate / 512)"]
  show ?thesis by (simp add: correlationsOf_def Let_def)
qed

lemma detectKey_silence:
  "detectKey \<lparr>sampleRate = rate, channelData = replicate L 0\<rparr> =
     Inr [\<lparr>key = ''C'', mode = Major, KeyCandidate.confidence = 0\<rparr>, \<lparr>key = ''C'', mode = Minor, KeyCandidate.confidence = 0\<rparr>,
      \<lparr>key = ''C#'', mode = Major, KeyCandidate.confidence = 0\<rparr>, \<lparr>key = ''C#'', mode = Minor, KeyCandidate.confidence = 0\<rparr>,
      \<lparr>key = ''D'', mode = Major, KeyCandidate.confidence = 0\<rparr>, \<lparr>key = ''D'', mode = Minor, KeyCandidate.confidence = 0\<rparr>]"
  unfolding detectKey_def accumulateChroma_silence by (rule zero_chroma_key)

text \<open>
  Within the bound of the engine a buffer of zeros gives the tempo 120 with confidence 0
  and no alternatives, and six key candidates with confidence 0 (the first six in the
  order of the shift loop). The values are these numbers: on this path every division of
  the source is by a nonzero number (\<open>pearsonCorrelation\<close> returns 0 at its test
  \<open>den === 0\<close>, \<open>range\<close> is 1).
\<close>

lemma analyze_silence_within_limit:
  assumes "length (computeSpectralFlux (replicate L 0)) < 100 \<or>
     length (computeSpectralFlux (replicate L 0)) \<le> maxArguments"
  shows "analyze maxArguments \<lparr>sampleRate = rate, channelData = replicate L 0\<rparr> =
     Inr \<lparr>AnalysisResult.bpm = 120, bpmConfidence = 0, bpmAlternatives = [],
          keyCandidates =
            [\<lparr>key = ''C'', mode = Major, KeyCandidate.confidence = 0\<rparr>, \<lparr>key = ''C'', mode = Minor, KeyCandidate.confidence = 0\<rparr>,
             \<lparr>key = ''C#'', mode = Major, KeyCandidate.confidence = 0\<rparr>, \<lparr>key = ''C#'', mode = Minor, KeyCandidate.confidence = 0\<rparr>,
             \<lparr>key = ''D'', mode = Major, KeyCandidate.confidence = 0\<rparr>, \<lparr>key = ''D'', mode = Minor, KeyCandidate.confidence = 0\<rparr>]\<rparr>"
proof -
  have "detectBPM maxArguments \<lparr>sampleRate = rate, channelData = replicate L 0\<rparr> = Inr degenerate"
    using detectBPM_returns [of "\<lparr>sampleRate = rate, channelData = replicate L 0\<rparr>" maxArguments] assms
      computeSpectralFlux_silence [of L]
    by (simp add: tempoFromFlux_silence)
  then show ?thesis
    unfolding analyze_def detectKey_silence by (simp add: degenerate_def)
qed

section \<open>The number of flux values\<close>

lemma frameStarts_length:
  "0 < H \<Longrightarrow> length (frameStarts F H L s) = (if s + F < L then (L - (s + F) - 1) div H + 1 else 0)"
proof (induction F H L s rule: frameStarts.induct)
  case (1 F H L s)
  show ?case
  proof (cases "s + F < L")
    case True
    with "1.prems" have eq: "frameStarts F H L s = s # frameStarts F H L (s + H)"
      by (subst frameStarts.simps) simp
    have ih: "length (frameStarts F H L (s + H)) =
        (if s + H + F < L then (L - (s + H + F) - 1) div H + 1 else 0)"
      using "1.IH" True "1.prems" by simp
    show ?thesis
    proof (cases "s + H + F < L")
      case T2: True
      then have "H \<le> L - (s + F) - 1" by linarith
      then have "(L - (s + F) - 1) div H = Suc ((L - (s + F) - 1 - H) div H)"
        using "1.prems" by (simp add: le_div_geq)
      moreover have "L - (s + F) - 1 - H = L - (s + H + F) - 1" by linarith
      ultimately show ?thesis using True T2 ih eq by simp
    next
      case F2: False
      with True have "L - (s + F) - 1 < H" by linarith
      then have "(L - (s + F) - 1) div H = 0" by simp
      then show ?thesis using True F2 ih eq by simp
    qed
  next
    case False
    then have "frameStarts F H L s = []" by (subst frameStarts.simps) simp
    with False show ?thesis by simp
  qed
qed

lemma flux_count: "length (computeSpectralFlux data) = (length data - 2049) div 512"
  by (simp add: computeSpectralFlux_length frameStarts_length)

lemma flux_count_long:
  assumes "2048 + 512 * (n + 1) < length data"
  shows "n < length (computeSpectralFlux data)"
proof -
  have "512 * (n + 1) \<le> length data - 2049" using assms by linarith
  then have "(512 * (n + 1)) div 512 \<le> (length data - 2049) div 512" by (rule div_le_mono)
  then show ?thesis unfolding flux_count by simp
qed

text \<open>
  Claim C1, where it fails. On a buffer of zeros with more flux values than the engine takes
  arguments, \<open>Math.max(...spectralFlux)\<close> throws: the analysis ends in a \<open>RangeError\<close>, where
  the claim has the result of silence and no error. (An engine takes far more than 99
  arguments.) The same holds of any buffer of that length.
\<close>

theorem analyze_long_silence:
  assumes "99 \<le> maxArguments" "2048 + 512 * (maxArguments + 1) < L"
  shows "analyze maxArguments \<lparr>sampleRate = rate, channelData = replicate L 0\<rparr> = Inl RangeError"
proof -
  let ?ab = "\<lparr>sampleRate = rate, channelData = replicate L 0\<rparr>"
  have "maxArguments < length (computeSpectralFlux (channelData ?ab))"
    using assms(2) by (intro flux_count_long) simp
  moreover from this assms(1) have "100 \<le> length (computeSpectralFlux (channelData ?ab))" by linarith
  ultimately have "detectBPM maxArguments ?ab = Inl RangeError" by (intro detectBPM_throws)
  then show ?thesis by (simp add: analyze_def)
qed

text \<open>
  Claim C1, witness: 66562049 zeros at 44100 Hz, about 25 minutes, leave 130000 flux
  values; the engine takes 125000 arguments.
\<close>

theorem analyze_long_silence_witness:
  "length (computeSpectralFlux (replicate 66562049 0)) = 130000 \<and>
   analyze 125000 \<lparr>sampleRate = 44100, channelData = replicate 66562049 0\<rparr> = Inl RangeError"
proof -
  have "length (computeSpectralFlux (replicate 66562049 0)) = 130000" by (simp add: flux_count)
  moreover have "analyze 125000 \<lparr>sampleRate = 44100, channelData = replicate 66562049 0\<rparr> = Inl RangeError"
    by (rule analyze_long_silence) simp_all
  ultimately show ?thesis by (rule conjI)
qed

section \<open>The degenerate tempo result\<close>

lemma frames_60000: "length (frameStarts 2048 512 60000 0) = 114"
  by (simp add: frameStarts_length)



section \<open>Scaling the samples\<close>

lemma chromaBin_scale:
  assumes "length c = 12" "bin < length m"
  shows "chromaBin r F (map ((*) a) m) bin (map ((*) (a * a)) c) = map ((*) (a * a)) (chromaBin r F m bin c)"
proof -
  have p: "pitchOf x < length c" for x using assms(1) pitchOf_lt [of x] by simp
  show ?thesis using assms(2) p
    by (simp add: chromaBin_def Let_def map_update algebra_simps)
qed

lemma fold_chromaBin_scale:
  assumes "length c = 12" "set bins \<subseteq> {..<length m}"
  shows "fold (chromaBin r F (map ((*) a) m)) bins (map ((*) (a * a)) c) =
           map ((*) (a * a)) (fold (chromaBin r F m) bins c)"
  using assms
proof (induction bins arbitrary: c)
  case Nil
  then show ?case by simp
next
  case (Cons b bins)
  have l: "length (chromaBin r F m b c) = 12" using Cons.prems(1) by (simp add: chromaBin_length)
  have "b < length m" "set bins \<subseteq> {..<length m}" using Cons.prems(2) by simp_all
  then show ?case using Cons.IH [OF l] chromaBin_scale [OF Cons.prems(1), of b m r F a] by simp
qed

lemma chromaFrame_scale:
  assumes "length c = 12"
  shows "chromaFrame r F (map ((*) a) m) (map ((*) (a * a)) c) = map ((*) (a * a)) (chromaFrame r F m c)"
proof -
  have "set [1..<length m] \<subseteq> {..<length m}" by auto
  from fold_chromaBin_scale [OF assms this] show ?thesis by (simp add: chromaFrame_def)
qed

lemma fold_chromaFrame_scale:
  assumes "length c = 12" "\<forall>x\<in>set c. 0 \<le> x"
  shows "fold (\<lambda>start chroma. chromaFrame r F (map ((*) a) (g start)) chroma) starts (map ((*) (a * a)) c) =
           map ((*) (a * a)) (fold (\<lambda>start chroma. chromaFrame r F (g start) chroma) starts c)"
  using assms
proof (induction starts arbitrary: c)
  case Nil
  then show ?case by simp
next
  case (Cons s starts)
  note p = chromaFrame_props [OF Cons.prems, of r F "g s"]
  from p have l: "length (chromaFrame r F (g s) c) = 12"
    and n: "\<forall>x\<in>set (chromaFrame r F (g s) c). 0 \<le> x" by simp_all
  show ?case using Cons.IH [OF l n] chromaFrame_scale [OF Cons.prems(1), of r F a "g s"] by simp
qed

lemma accumulateChroma_scale:
  "accumulateChroma \<lparr>sampleRate = r, channelData = map ((*) c) data\<rparr> =
     map ((*) (\<bar>c\<bar> * \<bar>c\<bar>)) (accumulateChroma \<lparr>sampleRate = r, channelData = data\<rparr>)"
proof -
  have m: "getMagnitudeSpectrum (slice (map ((*) c) data) start (start + 8192)) 8192 =
      map ((*) \<bar>c\<bar>) (getMagnitudeSpectrum (slice data start (start + 8192)) 8192)" for start
    unfolding slice_map by (rule getMagnitudeSpectrum_scale [OF pow_8192])
  have z: "replicate 12 (0::real) = map ((*) (\<bar>c\<bar> * \<bar>c\<bar>)) (replicate 12 0)" by simp
  have l: "length (replicate 12 (0::real)) = 12" "\<forall>x\<in>set (replicate 12 (0::real)). 0 \<le> x" by simp_all
  have "accumulateChroma \<lparr>sampleRate = r, channelData = map ((*) c) data\<rparr> =
      fold (\<lambda>start chroma. chromaFrame r 8192
              (map ((*) \<bar>c\<bar>) (getMagnitudeSpectrum (slice data start (start + 8192)) 8192)) chroma)
           (frameStarts 8192 4096 (length data) 0) (map ((*) (\<bar>c\<bar> * \<bar>c\<bar>)) (replicate 12 0))"
    unfolding accumulateChroma_def Let_def by (simp only: AudioBuffer.simps m length_map z [symmetric])
  also have "\<dots> = map ((*) (\<bar>c\<bar> * \<bar>c\<bar>))
      (fold (\<lambda>start chroma. chromaFrame r 8192 (getMagnitudeSpectrum (slice data start (start + 8192)) 8192) chroma)
           (frameStarts 8192 4096 (length data) 0) (replicate 12 0))"
    by (rule fold_chromaFrame_scale [OF l])
  finally show ?thesis by (simp add: accumulateChroma_def Let_def)
qed

lemma Max_scale:
  assumes "0 < k" "xs \<noteq> []"
  shows "Max (set (map ((*) k) xs)) = k * Max (set (xs::real list))"
proof -
  have "mono ((*) k)" using assms(1) by (simp add: mono_def)
  then have "k * Max (set xs) = Max ((*) k ` set xs)"
    using assms(2) by (intro mono_Max_commute) simp_all
  then show ?thesis by simp
qed

lemma normalizeChroma_scale:
  assumes "0 < k" "length c = 12" "\<forall>x\<in>set c. 0 \<le> x"
  shows "normalizeChroma (map ((*) k) c) = normalizeChroma c"
proof -
  have ne: "c \<noteq> []" using assms(2) by auto
  let ?M = "Max (set c)"
  have M: "Max (set (map ((*) k) c)) = k * ?M" by (rule Max_scale [OF assms(1) ne])
  show ?thesis
  proof (cases "0 < ?M")
    case True
    then have kM: "0 < k * ?M" using assms(1) by simp
    have "map (\<lambda>i. map ((*) k) c ! i / (k * ?M)) [0..<12] = map (\<lambda>i. c ! i / ?M) [0..<12]"
    proof (rule map_cong [OF refl])
      fix i assume "i \<in> set [0..<12]"
      then have "i < length c" using assms(2) by simp
      then show "map ((*) k) c ! i / (k * ?M) = c ! i / ?M" using assms(1) by simp
    qed
    then show ?thesis using True kM unfolding normalizeChroma_def Let_def M by simp
  next
    case False
    have "x = 0" if "x \<in> set c" for x
    proof -
      have "x \<le> ?M" using that by simp
      moreover have "0 \<le> x" using assms(3) that by blast
      ultimately show ?thesis using False by linarith
    qed
    then have z: "c = replicate 12 0" using assms(2) by (metis replicate_eqI)
    have "map ((*) k) (replicate 12 (0::real)) = replicate 12 0" by simp
    then show ?thesis unfolding z by simp
  qed
qed

text \<open>
  Claim C9. Multiplying every sample by a positive constant multiplies every magnitude by
  it and the accumulated chroma by its square, and the normalization removes the factor:
  \<open>detectKey\<close> returns the same list, with the same candidates in the same order and the
  same confidences, hence the same differences between them.
\<close>

theorem detectKey_scale_invariant:
  assumes "0 < c"
  shows "detectKey \<lparr>sampleRate = r, channelData = map ((*) c) data\<rparr> =
         detectKey \<lparr>sampleRate = r, channelData = data\<rparr>"
proof -
  let ?acc = "accumulateChroma \<lparr>sampleRate = r, channelData = data\<rparr>"
  note p = accumulateChroma_props [of "\<lparr>sampleRate = r, channelData = data\<rparr>"]
  from p have l: "length ?acc = 12" and n: "\<forall>x\<in>set ?acc. 0 \<le> x" by simp_all
  have k: "0 < \<bar>c\<bar> * \<bar>c\<bar>" using assms by simp
  show ?thesis
    unfolding detectKey_def keyFromChroma_def accumulateChroma_scale
      normalizeChroma_scale [OF k l n] ..
qed

text \<open>Claim C9, witness: a sawtooth of 20000 samples, scaled by 3.\<close>

theorem detectKey_scale_invariant_witness:
  "(0::real) < 3 \<and>
   detectKey \<lparr>sampleRate = 44100, channelData = map ((*) 3) (map (\<lambda>i. real (i mod 5)) [0..<20000])\<rparr> =
   detectKey \<lparr>sampleRate = 44100, channelData = map (\<lambda>i. real (i mod 5)) [0..<20000]\<rparr>"
proof -
  have h: "(0::real) < 3" by simp
  from detectKey_scale_invariant [OF h, of 44100 "map (\<lambda>i. real (i mod 5)) [0..<20000]"] h
  show ?thesis by (rule conjI [rotated])
qed

section \<open>The bit-reversal permutation\<close>

lemma bitrev_less: "bitrev q i < 2 ^ q"
proof (induction q arbitrary: i)
  case 0
  show ?case by simp
next
  case (Suc q)
  have "(i mod 2) * 2 ^ q \<le> 1 * 2 ^ q" by (intro mult_le_mono1) simp
  then have "(i mod 2) * 2 ^ q \<le> 2 ^ q" by (simp only: nat_mult_1)
  moreover have "bitrev q (i div 2) < 2 ^ q" by (rule Suc)
  ultimately have "(i mod 2) * 2 ^ q + bitrev q (i div 2) < 2 ^ q + 2 ^ q" by (rule add_le_less_mono)
  then show ?case by simp
qed

lemma bitrev_msb: "i < 2 ^ Suc q \<Longrightarrow> bitrev (Suc q) i = 2 * bitrev q (i mod 2 ^ q) + i div 2 ^ q"
proof (induction q arbitrary: i)
  case 0
  then show ?case by simp
next
  case (Suc q)
  have h: "i div 2 < 2 ^ Suc q" using Suc.prems by simp
  have a: "(i mod 2 ^ Suc q) mod 2 = i mod 2"
    by (simp add: mod_mod_cancel)
  have b: "(i mod 2 ^ Suc q) div 2 = (i div 2) mod 2 ^ q"
    by (metis div_exp_mod_exp_eq power_one_right add_diff_cancel_left' plus_1_eq_Suc)
  have c: "(i div 2) div 2 ^ q = i div 2 ^ Suc q"
    by (simp add: div_mult2_eq)
  have "bitrev (Suc (Suc q)) i = (i mod 2) * 2 ^ Suc q + bitrev (Suc q) (i div 2)" by simp
  also have "\<dots> = (i mod 2) * 2 ^ Suc q + (2 * bitrev q ((i div 2) mod 2 ^ q) + (i div 2) div 2 ^ q)"
    using Suc.IH [OF h] by simp
  also have "\<dots> = 2 * ((i mod 2) * 2 ^ q + bitrev q ((i div 2) mod 2 ^ q)) + i div 2 ^ Suc q"
    unfolding c by simp
  also have "(i mod 2) * 2 ^ q + bitrev q ((i div 2) mod 2 ^ q) = bitrev (Suc q) (i mod 2 ^ Suc q)"
    by (simp only: bitrev.simps a b)
  finally show ?case .
qed

lemma bitrev_involution: "i < 2 ^ q \<Longrightarrow> bitrev q (bitrev q i) = i"
proof (induction q arbitrary: i)
  case 0
  then show ?case by simp
next
  case (Suc q)
  let ?y = "(i mod 2) * 2 ^ q + bitrev q (i div 2)"
  have r: "bitrev q (i div 2) < 2 ^ q" by (rule bitrev_less)
  have y: "?y < 2 ^ Suc q" using bitrev_less [of "Suc q" i] by simp
  have m: "?y mod 2 ^ q = bitrev q (i div 2)" using r by simp
  have d: "?y div 2 ^ q = i mod 2" using r by simp
  have "i div 2 < 2 ^ q" using Suc.prems by simp
  then have "bitrev q (bitrev q (i div 2)) = i div 2" by (rule Suc.IH)
  then have "bitrev (Suc q) ?y = 2 * (i div 2) + i mod 2"
    unfolding bitrev_msb [OF y] m d by simp
  then show ?case by simp
qed

lemma carry_bitrev:
  "i + 1 < 2 ^ Suc q \<Longrightarrow>
     snd (carry (2 ^ q) (bitrev (Suc q) i)) + fst (carry (2 ^ q) (bitrev (Suc q) i)) = bitrev (Suc q) (i + 1)"
proof (induction q arbitrary: i)
  case 0
  then have "i = 0" by simp
  then show ?case by (simp add: carry.simps)
next
  case (Suc q)
  let ?r = "bitrev (Suc q) (i div 2)"
  have rl: "?r < 2 ^ Suc q" by (rule bitrev_less)
  show ?case
  proof (cases "even i")
    case True
    then have j: "bitrev (Suc (Suc q)) i = ?r" by simp
    have "carry (2 ^ Suc q) ?r = (2 ^ Suc q, ?r)" using rl by (subst carry.simps) simp
    moreover have "(i + 1) mod 2 = 1" "(i + 1) div 2 = i div 2" using True by presburger+
    then have "bitrev (Suc (Suc q)) (i + 1) = 2 ^ Suc q + ?r" by (simp only: bitrev.simps nat_mult_1)
    ultimately show ?thesis unfolding j by simp
  next
    case False
    then have j: "bitrev (Suc (Suc q)) i = 2 ^ Suc q + ?r" by (simp add: odd_iff_mod_2_eq_one)
    have c: "carry (2 ^ Suc q) (2 ^ Suc q + ?r) = carry (2 ^ q) ?r"
      by (subst carry.simps) simp
    have "i div 2 + 1 < 2 ^ Suc q" using Suc.prems False by (simp add: odd_iff_mod_2_eq_one) presburger
    from Suc.IH [OF this] have "snd (carry (2 ^ q) ?r) + fst (carry (2 ^ q) ?r) = bitrev (Suc q) (i div 2 + 1)" .
    moreover have "(i + 1) mod 2 = 0" "(i + 1) div 2 = i div 2 + 1" using False by presburger+
    then have "bitrev (Suc (Suc q)) (i + 1) = bitrev (Suc q) (i div 2 + 1)"
      by (simp only: bitrev.simps mult_0 add_0)
    ultimately show ?thesis unfolding j c by simp
  qed
qed

subsection \<open>\<open>bitReverse\<close> permutes by bit reversal\<close>

lemma swap_nth:
  "i < length a \<Longrightarrow> j < length a \<Longrightarrow>
     swap i j a ! p = (if p = j then a ! i else if p = i then a ! j else a ! p)"
  by (simp add: swap_def nth_list_update)

lemma bitReverse_step_value:
  fixes a :: "real list"
  assumes "i < n" "j < n" "length a = n" "p < n" "rp < n"
    and "(rp = i) = (p = j)" "(rp = j) = (p = i)"
  shows "(if i + 1 \<le> p \<and> i + 1 \<le> rp then (if i < j then swap i j a else a) ! rp
          else (if i < j then swap i j a else a) ! p)
       = (if i \<le> p \<and> i \<le> rp then a ! rp else a ! p)"
  using assms by (auto simp: swap_nth)

lemma bitReverse_perm:
  assumes "n = 2 ^ Suc q" "length re = n" "length im = n" "i < n \<longrightarrow> j = bitrev (Suc q) i"
  shows "(\<forall>p<n. fst (bitReverse n i j re im) ! p =
            (if i \<le> p \<and> i \<le> bitrev (Suc q) p then re ! bitrev (Suc q) p else re ! p)) \<and>
         (\<forall>p<n. snd (bitReverse n i j re im) ! p =
            (if i \<le> p \<and> i \<le> bitrev (Suc q) p then im ! bitrev (Suc q) p else im ! p))"
  using assms
proof (induction n i j re im rule: bitReverse.induct)
  case (1 n i j re im)
  show ?case
  proof (cases "i < n")
    case True
    let ?re' = "if i < j then swap i j re else re"
    let ?im' = "if i < j then swap i j im else im"
    let ?mj = "carry (n div 2) j"
    let ?j' = "snd ?mj + fst ?mj"
    have j: "j = bitrev (Suc q) i" using True "1.prems"(4) by simp
    have jn: "j < n" unfolding j "1.prems"(1) by (rule bitrev_less)
    have nd: "n div 2 = 2 ^ q" using "1.prems"(1) by simp
    have j': "i + 1 < n \<longrightarrow> ?j' = bitrev (Suc q) (i + 1)"
      unfolding nd j using carry_bitrev [of i q] "1.prems"(1) by simp
    have l: "length ?re' = n" "length ?im' = n" using "1.prems" by (simp_all add: swap_length)
    have u: "bitReverse n i j re im = bitReverse n (i + 1) ?j' ?re' ?im'"
      using True by (subst bitReverse.simps) (simp add: Let_def)
    note IH = "1.IH" [OF True refl refl refl "1.prems"(1) l j']
    have rv: "bitrev (Suc q) p < n" for p unfolding "1.prems"(1) by (rule bitrev_less)
    have e1: "(bitrev (Suc q) p = i) = (p = j)" if "p < n" for p
      using that bitrev_involution [of p "Suc q"] bitrev_involution [of i "Suc q"] True j "1.prems"(1)
      by metis
    have e2: "(bitrev (Suc q) p = j) = (p = i)" if "p < n" for p
      using that bitrev_involution [of p "Suc q"] bitrev_involution [of i "Suc q"] True j "1.prems"(1)
      by metis
    show ?thesis
    proof (intro conjI allI impI)
      fix p assume p: "p < n"
      from IH p have "fst (bitReverse n i j re im) ! p =
          (if i + 1 \<le> p \<and> i + 1 \<le> bitrev (Suc q) p then ?re' ! bitrev (Suc q) p else ?re' ! p)"
        unfolding u by blast
      also have "\<dots> = (if i \<le> p \<and> i \<le> bitrev (Suc q) p then re ! bitrev (Suc q) p else re ! p)"
        by (rule bitReverse_step_value [OF True jn "1.prems"(2) p rv e1 [OF p] e2 [OF p]])
      finally show "fst (bitReverse n i j re im) ! p =
          (if i \<le> p \<and> i \<le> bitrev (Suc q) p then re ! bitrev (Suc q) p else re ! p)" .
    next
      fix p assume p: "p < n"
      from IH p have "snd (bitReverse n i j re im) ! p =
          (if i + 1 \<le> p \<and> i + 1 \<le> bitrev (Suc q) p then ?im' ! bitrev (Suc q) p else ?im' ! p)"
        unfolding u by blast
      also have "\<dots> = (if i \<le> p \<and> i \<le> bitrev (Suc q) p then im ! bitrev (Suc q) p else im ! p)"
        by (rule bitReverse_step_value [OF True jn "1.prems"(3) p rv e1 [OF p] e2 [OF p]])
      finally show "snd (bitReverse n i j re im) ! p =
          (if i \<le> p \<and> i \<le> bitrev (Suc q) p then im ! bitrev (Suc q) p else im ! p)" .
    qed
  next
    case False
    then have "bitReverse n i j re im = (re, im)" by (subst bitReverse.simps) simp
    then show ?thesis using False by simp
  qed
qed

lemma bitReverse_cz:
  assumes "n = 2 ^ Suc q" "length re = n" "length im = n" "p < n"
  shows "cz (fst (bitReverse n 0 0 re im)) (snd (bitReverse n 0 0 re im)) p = cz re im (bitrev (Suc q) p)"
proof -
  have z: "bitrev (Suc q) 0 = 0" by (induction q) simp_all
  have "0 < n \<longrightarrow> 0 = bitrev (Suc q) 0" by (simp only: z) simp
  from bitReverse_perm [OF assms(1-3) this] assms(4) show ?thesis by (simp add: cz_def)
qed

section \<open>One block of butterflies\<close>

lemma cz_update:
  "a < length re \<Longrightarrow> b < length re \<Longrightarrow> length im = length re \<Longrightarrow>
     cz (re[a := x1, b := x2]) (im[a := y1, b := y2]) q =
       (if q = b then Complex x2 y2 else if q = a then Complex x1 y1 else cz re im q)"
  by (simp add: cz_def nth_list_update)

lemma butterfly_plus:
  "Complex (uR + (cr * vR - ci * vI)) (uI + (cr * vI + ci * vR)) =
     Complex uR uI + Complex cr ci * Complex vR vI"
  by (simp add: complex_eq_iff)

lemma butterfly_minus:
  "Complex (uR - (cr * vR - ci * vI)) (uI - (cr * vI + ci * vR)) =
     Complex uR uI - Complex cr ci * Complex vR vI"
  by (simp add: complex_eq_iff)

lemma twiddle_next:
  "Complex (cr * wr - ci * wi) (cr * wi + ci * wr) = Complex cr ci * Complex wr wi"
  by (simp add: complex_eq_iff)

lemma butterflies_cz:
  assumes "length re = n" "length im = n" "i + 2 * h \<le> n" "p < n"
  shows "cz (fst (butterflies i h wr wi j cr ci re im)) (snd (butterflies i h wr wi j cr ci re im)) p =
     (if i + j \<le> p \<and> p < i + h
      then cz re im p + Complex cr ci * Complex wr wi ^ (p - (i + j)) * cz re im (p + h)
      else if i + h + j \<le> p \<and> p < i + 2 * h
      then cz re im (p - h) - Complex cr ci * Complex wr wi ^ (p - (i + h + j)) * cz re im p
      else cz re im p)"
  using assms
proof (induction i h wr wi j cr ci re im rule: butterflies.induct)
  case (1 i h wr wi j cr ci re im)
  show ?case
  proof (cases "j < h")
    case True
    let ?tR = "cr * re ! (i + j + h) - ci * im ! (i + j + h)"
    let ?tI = "cr * im ! (i + j + h) + ci * re ! (i + j + h)"
    let ?re' = "re[i + j := re ! (i + j) + ?tR, i + j + h := re ! (i + j) - ?tR]"
    let ?im' = "im[i + j := im ! (i + j) + ?tI, i + j + h := im ! (i + j) - ?tI]"
    let ?nR = "cr * wr - ci * wi" and ?nI = "cr * wi + ci * wr"
    let ?c = "Complex cr ci" and ?w = "Complex wr wi"
    have r: "i + j < length re" "i + j + h < length re" "length im = length re"
      using True "1.prems" by simp_all
    have l: "length ?re' = n" "length ?im' = n" using "1.prems" by simp_all
    have u: "butterflies i h wr wi j cr ci re im = butterflies i h wr wi (j + 1) ?nR ?nI ?re' ?im'"
      using True by (subst butterflies.simps) (simp add: Let_def)
    note IH = "1.IH" [OF True refl refl refl refl refl refl refl refl l "1.prems"(3,4)]
    have c': "cz ?re' ?im' q =
        (if q = i + j + h then cz re im (i + j) - ?c * cz re im (i + j + h)
         else if q = i + j then cz re im (i + j) + ?c * cz re im (i + j + h)
         else cz re im q)" for q
      unfolding cz_update [OF r] by (simp add: cz_def butterfly_plus butterfly_minus)
    have pw: "?w * ?w ^ (p - (i + j + 1)) = ?w ^ (p - (i + j))" if "i + j + 1 \<le> p"
    proof -
      from that have "p - (i + j) = Suc (p - (i + j + 1))" by simp
      then show ?thesis by simp
    qed
    have pw2: "?w * ?w ^ (p - (i + h + (j + 1))) = ?w ^ (p - (i + h + j))" if "i + h + j + 1 \<le> p"
    proof -
      from that have "p - (i + h + j) = Suc (p - (i + h + (j + 1)))" by simp
      then show ?thesis by simp
    qed
    consider "p = i + j" | "p = i + j + h" | "i + j + 1 \<le> p" "p < i + h" | "i + h + j + 1 \<le> p" "p < i + 2 * h"
      | "p < i + j" | "i + h \<le> p" "p < i + h + j" | "i + 2 * h \<le> p"
      by linarith
    then show ?thesis
    proof cases
      case 1
      then show ?thesis unfolding u IH twiddle_next c' using True by simp
    next
      case 2
      then show ?thesis unfolding u IH twiddle_next c' using True by simp
    next
      case 3
      then show ?thesis unfolding u IH twiddle_next c' using True pw by (auto simp: mult.assoc)
    next
      case 4
      then show ?thesis unfolding u IH twiddle_next c' using True pw2 by (auto simp: mult.assoc)
    next
      case 5
      then show ?thesis unfolding u IH twiddle_next c' using True by simp
    next
      case 6
      then show ?thesis unfolding u IH twiddle_next c' using True by simp
    next
      case 7
      then show ?thesis unfolding u IH twiddle_next c' using True by simp
    qed
  next
    case False
    then have e: "butterflies i h wr wi j cr ci re im = (re, im)" by (subst butterflies.simps) simp
    have n1: "\<not> (i + j \<le> p \<and> p < i + h)" using False by linarith
    have n2: "\<not> (i + h + j \<le> p \<and> p < i + 2 * h)" using False by linarith
    show ?thesis unfolding e by (simp only: n1 n2 if_False fst_conv snd_conv)
  qed
qed

subsection \<open>One stage\<close>

lemma mod_block: "len dvd i \<Longrightarrow> i \<le> p \<Longrightarrow> p < i + len \<Longrightarrow> p mod len = p - (i::nat)"
proof -
  assume a: "len dvd i" "i \<le> p" "p < i + len"
  then have "p = (p - i) + i" by simp
  then have "p mod len = (p - i) mod len" using a(1) by (metis mod_add_right_eq dvd_eq_mod_eq_0 add.right_neutral mod_mod_trivial)
  also have "\<dots> = p - i" using a(2,3) by simp
  finally show ?thesis .
qed

lemma butterflies_length:
  assumes "length re = n" "length im = n" "i + 2 * h \<le> n"
  shows "length (fst (butterflies i h wr wi j cr ci re im)) = n"
    and "length (snd (butterflies i h wr wi j cr ci re im)) = n"
  using butterflies_scale [OF assms, of wr wi j cr ci 1] by simp_all

lemma blocks_cz:
  assumes "length re = n" "length im = n" "len = 2 * h" "0 < h" "len dvd n" "len dvd i" "p < n"
  shows "cz (fst (blocks n len wr wi i re im)) (snd (blocks n len wr wi i re im)) p =
     (if i \<le> p then combine h (Complex wr wi) (cz re im) p else cz re im p)"
  using assms
proof (induction n len wr wi i re im rule: blocks.induct)
  case (1 n len wr wi i re im)
  let ?w = "Complex wr wi"
  show ?case
  proof (cases "i < n")
    case True
    then have T: "i < n \<and> 0 < len" using "1.prems"(3,4) by simp
    let ?r = "butterflies i (len div 2) wr wi 0 1 0 re im"
    have h: "len div 2 = h" using "1.prems"(3) by simp
    have le: "i + 2 * h \<le> n" using dvd_step [OF "1.prems"(5,6) True] "1.prems"(3) by simp
    have l: "length (fst ?r) = n" "length (snd ?r) = n"
      unfolding h using butterflies_length [OF "1.prems"(1,2) le] by simp_all
    have u: "blocks n len wr wi i re im = blocks n len wr wi (i + len) (fst ?r) (snd ?r)"
      using T by (subst blocks.simps) (simp add: Let_def)
    have d: "len dvd i + len" using "1.prems"(6) by simp
    note IH = "1.IH" [OF T refl l "1.prems"(3,4,5) d "1.prems"(7)]
    have one: "Complex 1 0 = 1" by (simp add: complex_eq_iff)
    have rq: "cz (fst ?r) (snd ?r) q =
        (if i \<le> q \<and> q < i + h then cz re im q + ?w ^ (q - i) * cz re im (q + h)
         else if i + h \<le> q \<and> q < i + 2 * h then cz re im (q - h) - ?w ^ (q - (i + h)) * cz re im q
         else cz re im q)" if "q < n" for q
      unfolding h using butterflies_cz [OF "1.prems"(1,2) le that, of wr wi 0 1 0] by (simp add: one)
    show ?thesis
    proof (cases "i + len \<le> p")
      case far: True
      let ?t = "p mod (2 * h)"
      let ?b = "p - ?t"
      have bd: "len dvd ?b" unfolding "1.prems"(3) by (simp add: dvd_minus_mod)
      have bl: "?b < n" using "1.prems"(7) by simp
      have bn: "?b + len \<le> n" by (rule dvd_step [OF "1.prems"(5) bd bl])
      have ib: "i + len \<le> ?b"
      proof -
        have lp: "0 < len" using "1.prems"(3,4) by simp
        from d obtain c where c: "i + len = len * c" ..
        have "c * len \<le> p" using far c by (simp add: mult.commute)
        then have "c \<le> p div len" using lp by (simp add: less_eq_div_iff_mult_less_eq)
        then have "len * c \<le> len * (p div len)" by simp
        also have "len * (p div len) = p - p mod len" by (simp add: minus_mod_eq_mult_div)
        finally show ?thesis using c "1.prems"(3) by simp
      qed
      have tl: "?t < 2 * h" using "1.prems"(4) by simp
      have pb: "p = ?b + ?t" by simp
      show ?thesis
      proof (cases "?t < h")
        case True
        have ph: "p + h < n" using bn pb True "1.prems"(3) by linarith
        have "i + 2 * h \<le> p" using far "1.prems"(3) by simp
        then have "cz (fst ?r) (snd ?r) p = cz re im p" "cz (fst ?r) (snd ?r) (p + h) = cz re im (p + h)"
          using rq [OF "1.prems"(7)] rq [OF ph] by simp_all
        then show ?thesis unfolding u IH using far True "1.prems"(3) by (simp add: combine_def Let_def)
      next
        case False
        have far2: "i + 2 * h \<le> p - h" using ib pb False "1.prems"(3) by linarith
        have far1: "i + 2 * h \<le> p" using far "1.prems"(3) by simp
        have ph': "p - h < n" using "1.prems"(7) by simp
        have "cz (fst ?r) (snd ?r) p = cz re im p" using rq [OF "1.prems"(7)] far1 by simp
        moreover have "cz (fst ?r) (snd ?r) (p - h) = cz re im (p - h)" using rq [OF ph'] far2 by simp
        ultimately show ?thesis unfolding u IH using far False "1.prems"(3) by (simp add: combine_def Let_def)
      qed
    next
      case near: False
      show ?thesis
      proof (cases "i \<le> p")
        case True
        have m: "p mod (2 * h) = p - i"
          using mod_block [OF "1.prems"(6) True] near "1.prems"(3) by simp
        show ?thesis unfolding u IH using near True rq [OF "1.prems"(7)] "1.prems"(3)
          by (auto simp: combine_def Let_def m)
      next
        case False
        then show ?thesis unfolding u IH using near rq [OF "1.prems"(7)] by simp
      qed
    qed
  next
    case False
    then have "blocks n len wr wi i re im = (re, im)" by (subst blocks.simps) simp
    then show ?thesis using False "1.prems"(7) by simp
  qed
qed

section \<open>Splitting a transform into its even and odd halves\<close>

lemma sum_even_odd: "(\<Sum>v<2 * (h::nat). f v) = (\<Sum>u<h. f (2 * u)) + (\<Sum>u<h. (f (2 * u + 1) :: complex))"
  by (induction h) (simp_all add: algebra_simps)

lemma twiddle_square: "cis (- 2 * pi / 2 ^ Suc s) ^ 2 = cis (- 2 * pi / 2 ^ s)"
  by (simp add: DeMoivre)

lemma twiddle_full: "cis (- 2 * pi / 2 ^ s) ^ (2 ^ s) = 1"
proof -
  have "real ((2::nat) ^ s) * (- 2 * pi / 2 ^ s) = - (2 * pi)" by simp
  then have "cis (- 2 * pi / 2 ^ s) ^ (2 ^ s) = cis (- (2 * pi))" by (simp only: DeMoivre)
  then show ?thesis by (simp add: complex_eq_iff)
qed

lemma twiddle_half: "cis (- 2 * pi / 2 ^ Suc s) ^ (2 ^ s) = - 1"
proof -
  have "real ((2::nat) ^ s) * (- 2 * pi / 2 ^ Suc s) = - pi" by simp
  then have "cis (- 2 * pi / 2 ^ Suc s) ^ (2 ^ s) = cis (- pi)" by (simp only: DeMoivre)
  then show ?thesis by (simp add: complex_eq_iff)
qed


lemma subdft_split:
  assumes "s < k"
  shows "subdft k x (Suc s) r t =
           subdft k x s r t + cis (- 2 * pi / 2 ^ Suc s) ^ t * subdft k x s (2 ^ (k - Suc s) + r) t"
    and "subdft k x (Suc s) r (t + 2 ^ s) =
           subdft k x s r t - cis (- 2 * pi / 2 ^ Suc s) ^ t * subdft k x s (2 ^ (k - Suc s) + r) t"
proof -
  let ?w' = "cis (- 2 * pi / 2 ^ Suc s)" and ?w = "cis (- 2 * pi / 2 ^ s)"
  let ?q = "k - Suc s"
  have ks: "(2::nat) ^ (k - s) = 2 * 2 ^ ?q"
    using assms by (metis Suc_diff_Suc power_Suc)
  have ev: "x (2 * u * 2 ^ ?q + r) = x (u * 2 ^ (k - s) + r)" for u
    unfolding ks by (simp add: algebra_simps)
  have od: "x ((2 * u + 1) * 2 ^ ?q + r) = x (u * 2 ^ (k - s) + (2 ^ ?q + r))" for u
    unfolding ks by (simp add: algebra_simps)
  have pe: "?w' ^ (2 * u * t) = ?w ^ (u * t)" for u t
    by (metis twiddle_square power_mult mult.assoc)
  have po: "?w' ^ ((2 * u + 1) * t) = ?w ^ (u * t) * ?w' ^ t" for u t
  proof -
    have "(2 * u + 1) * t = 2 * u * t + t" by (simp add: algebra_simps)
    then show ?thesis by (simp only: power_add pe)
  qed
  have "subdft k x (Suc s) r t =
      (\<Sum>u<2 ^ s. x (2 * u * 2 ^ ?q + r) * ?w' ^ (2 * u * t)) +
      (\<Sum>u<2 ^ s. x ((2 * u + 1) * 2 ^ ?q + r) * ?w' ^ ((2 * u + 1) * t))" for t
    unfolding subdft_def power_Suc by (rule sum_even_odd)
  then have sp: "subdft k x (Suc s) r t =
      (\<Sum>u<2 ^ s. x (u * 2 ^ (k - s) + r) * ?w ^ (u * t)) +
      (\<Sum>u<2 ^ s. x (u * 2 ^ (k - s) + (2 ^ ?q + r)) * (?w ^ (u * t) * ?w' ^ t))" for t
    unfolding ev od pe po .
  show "subdft k x (Suc s) r t = subdft k x s r t + ?w' ^ t * subdft k x s (2 ^ ?q + r) t"
    by (subst sp) (simp add: subdft_def sum_distrib_left algebra_simps)
  have f: "?w ^ (u * (t + 2 ^ s)) = ?w ^ (u * t)" for u
  proof -
    have "u * (t + 2 ^ s) = u * t + 2 ^ s * u" by (simp add: algebra_simps)
    then show ?thesis by (simp only: power_add power_mult twiddle_full power_one mult_1_right)
  qed
  have g: "?w' ^ (t + 2 ^ s) = - (?w' ^ t)"
    by (simp only: power_add twiddle_half) simp
  show "subdft k x (Suc s) r (t + 2 ^ s) = subdft k x s r t - ?w' ^ t * subdft k x s (2 ^ ?q + r) t"
  proof -
    have sp2: "subdft k x (Suc s) r (t + 2 ^ s) =
      (\<Sum>u<2 ^ s. x (u * 2 ^ (k - s) + r) * ?w ^ (u * t)) +
      (\<Sum>u<2 ^ s. x (u * 2 ^ (k - s) + (2 ^ ?q + r)) * (?w ^ (u * t) * - (?w' ^ t)))"
      using sp [of "t + 2 ^ s"] unfolding f g .
    show ?thesis
      by (subst sp2) (simp add: subdft_def sum_distrib_left sum_negf algebra_simps)
  qed
qed

subsection \<open>A stage doubles the length of the transforms\<close>

lemma stage_step:
  assumes sk: "s < k" and inv: "stageInv k x s a"
    and a': "\<forall>p<2 ^ k. a' p = combine (2 ^ s) (cis (- 2 * pi / 2 ^ Suc s)) a p"
  shows "stageInv k x (Suc s) a'"
  unfolding stageInv_def
proof (intro allI impI)
  fix b t :: nat
  assume b: "b < 2 ^ (k - Suc s)" and t: "t < 2 ^ Suc s"
  let ?h = "(2::nat) ^ s" and ?q = "k - Suc s"
  let ?w' = "cis (- 2 * pi / 2 ^ Suc s)"
  let ?p = "b * 2 ^ Suc s + t"
  let ?r = "bitrev ?q b"
  have kq: "k - s = Suc ?q" using sk by simp
  have "(b + 1) * 2 ^ Suc s \<le> 2 ^ ?q * 2 ^ Suc s" using b by (intro mult_le_mono1) simp
  also have "\<dots> = 2 ^ k"
  proof -
    have "k - Suc s + Suc s = k" using sk by simp
    then show ?thesis by (metis power_add)
  qed
  finally have pk: "?p < 2 ^ k" using t by (simp add: algebra_simps)
  have m: "?p mod (2 * ?h) = t" using t by simp
  have b2: "2 * b < 2 ^ (k - s)" "2 * b + 1 < 2 ^ (k - s)" using b unfolding kq by simp_all
  have r0: "bitrev (k - s) (2 * b) = ?r" unfolding kq by simp
  have r1: "bitrev (k - s) (2 * b + 1) = 2 ^ ?q + ?r" unfolding kq by simp
  from inv have I: "a (c * ?h + u) = subdft k x s (bitrev (k - s) c) u"
    if "c < 2 ^ (k - s)" "u < ?h" for c u
    using that unfolding stageInv_def by blast
  show "a' ?p = subdft k x (Suc s) (bitrev (k - Suc s) b) t"
  proof (cases "t < ?h")
    case True
    have e0: "?p = (2 * b) * ?h + t" by simp
    have e1: "?p + ?h = (2 * b + 1) * ?h + t" by (simp add: algebra_simps)
    have "a' ?p = a ?p + ?w' ^ t * a (?p + ?h)"
      using a' pk True by (simp only: combine_def Let_def m if_True)
    also have "a ?p = subdft k x s ?r t" unfolding e0 I [OF b2(1) True] r0 ..
    also have "a (?p + ?h) = subdft k x s (2 ^ ?q + ?r) t" unfolding e1 I [OF b2(2) True] r1 ..
    finally show ?thesis unfolding subdft_split(1) [OF sk] .
  next
    case False
    let ?u = "t - ?h"
    have u: "?u < ?h" using t False by simp
    have tu: "t = ?u + ?h" using False by simp
    have e0: "?p - ?h = (2 * b) * ?h + ?u" using False by (simp add: algebra_simps)
    have e1: "?p = (2 * b + 1) * ?h + ?u" using False by (simp add: algebra_simps)
    have "a' ?p = a (?p - ?h) - ?w' ^ ?u * a ?p"
      using a' pk False by (simp only: combine_def Let_def m if_False)
    also have "a (?p - ?h) = subdft k x s ?r ?u" unfolding e0 I [OF b2(1) u] r0 ..
    also have "a ?p = subdft k x s (2 ^ ?q + ?r) ?u"
      by (subst e1) (simp only: I [OF b2(2) u] r1)
    finally have "a' ?p = subdft k x (Suc s) ?r (?u + ?h)" unfolding subdft_split(2) [OF sk] .
    then show ?thesis using tu by simp
  qed
qed

section \<open>\<open>fft\<close> computes the discrete Fourier transform\<close>

lemma blocks_length:
  assumes "length re = n" "length im = n" "len dvd n" "len dvd i"
  shows "length (fst (blocks n len wr wi i re im)) = n"
    and "length (snd (blocks n len wr wi i re im)) = n"
  using blocks_scale [OF assms, of wr wi 1] by simp_all

lemma stages_dft:
  assumes "n = 2 ^ k" "len = 2 ^ Suc s" "s \<le> k" "length re = n" "length im = n"
    "stageInv k x s (cz re im)" "p < n"
  shows "cz (fst (stages n len re im)) (snd (stages n len re im)) p = dft n x p"
  using assms
proof (induction n len re im arbitrary: s rule: stages.induct)
  case (1 n len re im)
  show ?case
  proof (cases "len \<le> n")
    case True
    then have T: "len \<le> n \<and> 0 < len" using "1.prems"(2) by simp
    let ?wr = "cos ((- 2 * pi) / real len)" and ?wi = "sin ((- 2 * pi) / real len)"
    let ?r = "blocks n len ?wr ?wi 0 re im"
    have "(2::nat) ^ Suc s \<le> 2 ^ k" using True unfolding "1.prems"(1,2) .
    then have "Suc s \<le> k" by (rule power_le_imp_le_exp [rotated]) simp
    then have sk: "s < k" by simp
    from \<open>Suc s \<le> k\<close> have dv: "len dvd n" unfolding "1.prems"(1,2) by (rule le_imp_power_dvd)
    have d0: "len dvd 0" by simp
    have l: "length (fst ?r) = n" "length (snd ?r) = n"
      using blocks_length [OF "1.prems"(4,5) dv d0] by simp_all
    have u: "stages n len re im = stages n (2 * len) (fst ?r) (snd ?r)"
      using T by (subst stages.simps) (simp add: Let_def)
    have len2: "len = 2 * 2 ^ s" using "1.prems"(2) by simp
    have hp: "0 < (2::nat) ^ s" by simp
    have w: "Complex ?wr ?wi = cis (- 2 * pi / 2 ^ Suc s)"
      unfolding "1.prems"(2) by (simp add: cis.code)
    have "\<forall>q<2 ^ k. cz (fst ?r) (snd ?r) q = combine (2 ^ s) (cis (- 2 * pi / 2 ^ Suc s)) (cz re im) q"
    proof (intro allI impI)
      fix q assume "q < (2::nat) ^ k"
      then have q: "q < n" using "1.prems"(1) by simp
      from blocks_cz [OF "1.prems"(4,5) len2 hp dv d0 q, of ?wr ?wi]
      show "cz (fst ?r) (snd ?r) q = combine (2 ^ s) (cis (- 2 * pi / 2 ^ Suc s)) (cz re im) q"
        unfolding w by simp
    qed
    then have inv: "stageInv k x (Suc s) (cz (fst ?r) (snd ?r))"
      by (rule stage_step [OF sk "1.prems"(6)])
    have p2: "2 * len = 2 ^ Suc (Suc s)" using "1.prems"(2) by simp
    show ?thesis unfolding u
      by (rule "1.IH" [OF T refl refl refl refl "1.prems"(1) p2 \<open>Suc s \<le> k\<close> l inv "1.prems"(7)])
  next
    case False
    then have e: "stages n len re im = (re, im)" by (subst stages.simps) simp
    have "(2::nat) ^ k < 2 ^ Suc s" using False "1.prems"(1,2) by (simp add: not_le)
    then have "k < Suc s" by (rule power_less_imp_less_exp [rotated]) simp
    with "1.prems"(3) have sk: "s = k" by simp
    have "p < 2 ^ k" using "1.prems"(1,7) by simp
    with "1.prems"(6) have "cz re im (0 * 2 ^ k + p) = subdft k x k (bitrev (k - k) 0) p"
      unfolding stageInv_def sk by simp
    then show ?thesis unfolding e by (simp add: subdft_def dft_def "1.prems"(1))
  qed
qed

lemma fft_dft:
  assumes "length re = 2 ^ k" "length im = 2 ^ k" "p < 2 ^ k"
  shows "cz (fst (fft re im)) (snd (fft re im)) p = dft (2 ^ k) (cz re im) p"
proof (cases k)
  case 0
  with assms show ?thesis by (simp add: fft_def dft_def)
next
  case (Suc q)
  let ?n = "(2::nat) ^ k"
  let ?r = "bitReverse ?n 0 0 re im"
  have n: "?n = 2 ^ Suc q" using Suc by simp
  have n2: "?n = 2 * 2 ^ q" using Suc by simp
  have "(1::nat) \<le> 2 ^ q" by simp
  with n2 have gt: "\<not> ?n \<le> 1" by linarith
  have pos: "0 < ?n" by simp
  note b = bitReverse_scale [OF n2 assms(1,2) pos, of 0 "(*) 1"]
  have l: "length (fst ?r) = ?n" "length (snd ?r) = ?n" using b by simp_all
  have inv: "stageInv k (cz re im) 0 (cz (fst ?r) (snd ?r))"
    unfolding stageInv_def
  proof (intro allI impI)
    fix b t :: nat
    assume "b < 2 ^ (k - 0)" "t < 2 ^ 0"
    then have b: "b < ?n" and t: "t = 0" by simp_all
    from bitReverse_cz [OF n assms(1,2) b]
    show "cz (fst ?r) (snd ?r) (b * 2 ^ 0 + t) = subdft k (cz re im) 0 (bitrev (k - 0) b) t"
      unfolding t using Suc by (simp add: subdft_def)
  qed
  have s2: "(2::nat) = 2 ^ Suc 0" by simp
  have u: "fft re im = stages ?n 2 (fst ?r) (snd ?r)"
    unfolding fft_def Let_def assms(1) using gt by simp
  show ?thesis unfolding u
    by (rule stages_dft [OF refl s2 _ l inv assms(3)]) simp
qed

section \<open>The transform of the Hann window\<close>

lemma cisSum_norm: "cmod (cisSum N \<alpha>) \<le> real N"
proof -
  have "cmod (cisSum N \<alpha>) \<le> (\<Sum>n<N. cmod (cis (real n * \<alpha>)))" unfolding cisSum_def by (rule norm_sum)
  then show ?thesis by simp
qed

lemma cisSum_geometric:
  assumes "cis \<alpha> \<noteq> 1"
  shows "cisSum N \<alpha> = (cis (real N * \<alpha>) - 1) / (cis \<alpha> - 1)"
proof -
  have "cisSum N \<alpha> = (\<Sum>n<N. cis \<alpha> ^ n)" unfolding cisSum_def by (simp add: DeMoivre)
  also have "\<dots> = (cis \<alpha> ^ N - 1) / (cis \<alpha> - 1)" using assms by (rule geometric_sum)
  finally show ?thesis by (simp add: DeMoivre)
qed

lemma cmod_cis_minus_1: "cmod (cis x - 1) = 2 * \<bar>sin (x / 2)\<bar>"
proof -
  have "(cmod (cis x - 1))\<^sup>2 = (cos x - 1)\<^sup>2 + (sin x)\<^sup>2"
    by (simp add: cmod_power2)
  also have "\<dots> = 2 - 2 * cos x"
    using sin_cos_squared_add [of x] by (simp add: power2_eq_square algebra_simps)
  also have "\<dots> = (2 * \<bar>sin (x / 2)\<bar>)\<^sup>2"
    using cos_double_sin [of "x / 2"] by (simp add: power2_eq_square)
  finally show ?thesis by (metis abs_ge_zero norm_ge_zero power2_eq_iff_nonneg mult_nonneg_nonneg zero_le_numeral)
qed

lemma hann_cis:
  "of_real (hann N n) = (1 / 2 :: complex) - (cis (real n * (2 * pi / (real N - 1))) + cis (- (real n * (2 * pi / (real N - 1))))) / 4"
  by (simp add: hann_def complex_eq_iff cis.code algebra_simps)

lemma hannSum_cisSum:
  "hannSum N \<alpha> = cisSum N \<alpha> / 2 - (cisSum N (\<alpha> + 2 * pi / (real N - 1)) + cisSum N (\<alpha> - 2 * pi / (real N - 1))) / 4"
proof -
  let ?\<theta> = "2 * pi / (real N - 1)"
  have "of_real (hann N n) * cis (real n * \<alpha>) =
      cis (real n * \<alpha>) / 2 - (cis (real n * (\<alpha> + ?\<theta>)) + cis (real n * (\<alpha> - ?\<theta>))) / 4" for n
    unfolding hann_cis by (simp add: algebra_simps cis_mult)
  then have "hannSum N \<alpha> =
      (\<Sum>n<N. cis (real n * \<alpha>) / 2 - (cis (real n * (\<alpha> + ?\<theta>)) + cis (real n * (\<alpha> - ?\<theta>))) / 4)"
    unfolding hannSum_def by (simp only:)
  also have "\<dots> = (\<Sum>n<N. cis (real n * \<alpha>)) / 2 -
      ((\<Sum>n<N. cis (real n * (\<alpha> + ?\<theta>))) + (\<Sum>n<N. cis (real n * (\<alpha> - ?\<theta>)))) / 4"
    by (simp only: sum_subtractf sum.distrib [symmetric] sum_divide_distrib)
  finally show ?thesis unfolding cisSum_def .
qed

subsection \<open>Geometric sums away from the unit\<close>

lemma cis_shift_2pi: "cis (x + 2 * pi * of_int z) = cis x"
proof -
  have "cis (2 * pi * of_int z) = 1" by (rule cis_multiple_2pi) simp
  then show ?thesis by (simp add: cis_mult [symmetric])
qed

lemma sin_lower:
  assumes "0 \<le> e" "e \<le> pi / 2" "e \<le> \<bar>x\<bar>" "\<bar>x\<bar> \<le> pi - e"
  shows "sin e \<le> \<bar>sin x\<bar>"
proof -
  have a: "\<bar>sin x\<bar> = \<bar>sin \<bar>x\<bar>\<bar>" by (cases "0 \<le> x") (simp_all add: abs_if)
  let ?y = "\<bar>x\<bar>"
  have y: "0 \<le> ?y" "?y \<le> pi" using assms by linarith+
  have nn: "0 \<le> sin ?y" using y by (rule sin_ge_zero)
  show ?thesis
  proof (cases "?y \<le> pi / 2")
    case True
    have "sin e \<le> sin ?y" using assms True by (intro sin_monotone_2pi_le) linarith+
    with nn show ?thesis unfolding a by simp
  next
    case False
    have "sin e \<le> sin (pi - ?y)" using assms False by (intro sin_monotone_2pi_le) linarith+
    also have "\<dots> = sin ?y" by simp
    finally show ?thesis using nn unfolding a by simp
  qed
qed

lemma sin_double_le:
  assumes "0 \<le> y" "y \<le> pi / 2"
  shows "sin (2 * y) \<le> 2 * sin y"
proof -
  have "0 \<le> sin y" using assms by (intro sin_ge_zero) linarith+
  moreover have "cos y \<le> 1" by simp
  ultimately have "sin y * cos y \<le> sin y * 1" by (intro mult_left_mono)
  then show ?thesis by (simp add: sin_double)
qed

lemma cisSum_bin:
  assumes "0 < N" "j \<noteq> 0" "\<bar>j\<bar> < int N"
  shows "cisSum N (2 * pi * of_int j / real N) = 0"
proof -
  let ?a = "2 * pi * of_int j / real N"
  have "0 < \<bar>pi * of_int j / real N\<bar>" using assms by simp
  moreover have "\<bar>pi * of_int j / real N\<bar> < pi"
  proof -
    have "\<bar>real_of_int j\<bar> < real N" using assms(3) by linarith
    then have "\<bar>real_of_int j\<bar> / real N < 1" using assms(1) by simp
    then have "pi * (\<bar>real_of_int j\<bar> / real N) < pi * 1" by (intro mult_strict_left_mono) simp_all
    then show ?thesis by (simp add: abs_mult)
  qed
  ultimately have "sin \<bar>pi * of_int j / real N\<bar> > 0" by (intro sin_gt_zero)
  then have "sin (?a / 2) \<noteq> 0" by (cases "0 \<le> pi * of_int j / real N") (auto simp: abs_if)
  then have "cmod (cis ?a - 1) \<noteq> 0" unfolding cmod_cis_minus_1 by simp
  then have ne: "cis ?a \<noteq> 1" by auto
  have "real N * ?a = 0 + 2 * pi * of_int j" using assms(1) by simp
  then have "cis (real N * ?a) = 1" by (simp only: cis_shift_2pi cis_zero)
  then show ?thesis unfolding cisSum_geometric [OF ne] by simp
qed

lemma N_theta:
  assumes "2 \<le> N"
  shows "real N * (2 * pi / (real N - 1)) = 2 * pi / (real N - 1) + 2 * pi * of_int 1"
  using assms by (simp add: field_simps)

lemma cisSum_shift:
  assumes N: "2 \<le> N" and s: "s = 1 \<or> s = - 1"
    and x: "sin (pi * of_int j / real N + s * pi / (real N - 1)) \<noteq> 0"
  shows "cmod (cisSum N (2 * pi * of_int j / real N + s * (2 * pi / (real N - 1)))) =
         \<bar>sin (pi / (real N - 1))\<bar> / \<bar>sin (pi * of_int j / real N + s * pi / (real N - 1))\<bar>"
proof -
  let ?t = "2 * pi / (real N - 1)"
  let ?a = "2 * pi * of_int j / real N + s * ?t"
  have h: "?a / 2 = pi * of_int j / real N + s * pi / (real N - 1)" by (simp add: field_simps)
  have "cmod (cis ?a - 1) \<noteq> 0" unfolding cmod_cis_minus_1 h using x by simp
  then have ne: "cis ?a \<noteq> 1" by auto
  have Na: "real N * ?a = s * ?t + 2 * pi * of_int (j + (if s = 1 then 1 else - 1))"
    using N s by (auto simp: field_simps)
  have "cis (real N * ?a) = cis (s * ?t)" unfolding Na by (rule cis_shift_2pi)
  then have "cmod (cisSum N ?a) = cmod (cis (s * ?t) - 1) / cmod (cis ?a - 1)"
    unfolding cisSum_geometric [OF ne] by (simp add: norm_divide)
  also have "cmod (cis (s * ?t) - 1) = 2 * \<bar>sin (pi / (real N - 1))\<bar>"
  proof -
    have "real N - 1 \<noteq> 0" using N by simp
    then have "s * ?t / 2 = s * (pi / (real N - 1))" by (simp add: field_simps)
    then have "\<bar>sin (s * ?t / 2)\<bar> = \<bar>sin (pi / (real N - 1))\<bar>" using s by auto
    then show ?thesis unfolding cmod_cis_minus_1 by simp
  qed
  also have "cmod (cis ?a - 1) = 2 * \<bar>sin (pi * of_int j / real N + s * pi / (real N - 1))\<bar>"
    unfolding cmod_cis_minus_1 h ..
  finally show ?thesis by simp
qed

lemma cisSum_small:
  assumes N: "4 \<le> N" and s: "s = 1 \<or> s = - 1"
    and lo: "pi / (2 * (real N - 1)) \<le> \<bar>pi * of_int j / real N + s * pi / (real N - 1)\<bar>"
    and hi: "\<bar>pi * of_int j / real N + s * pi / (real N - 1)\<bar> \<le> pi - pi / (2 * (real N - 1))"
  shows "cmod (cisSum N (2 * pi * of_int j / real N + s * (2 * pi / (real N - 1)))) \<le> 2"
proof -
  let ?e = "pi / (2 * (real N - 1))"
  let ?x = "pi * of_int j / real N + s * pi / (real N - 1)"
  have N1: "3 \<le> real N - 1" using N by simp
  have e0: "0 < ?e" using N1 by simp
  have "2 * (real N - 1) \<ge> 6" using N1 by simp
  then have "pi / (2 * (real N - 1)) \<le> pi / 6" by (intro divide_left_mono) simp_all
  then have e1: "?e \<le> pi / 2" using pi_ge_zero by linarith
  have se: "0 < sin ?e" using e0 e1 by (intro sin_gt_zero) (linarith+) 
  have lb: "sin ?e \<le> \<bar>sin ?x\<bar>" using e0 e1 lo hi by (intro sin_lower) linarith+
  with se have x0: "sin ?x \<noteq> 0" by auto
  have "2 * ?e = pi / (real N - 1)" using N1 by (simp add: field_simps)
  then have "sin (pi / (real N - 1)) \<le> 2 * sin ?e" using sin_double_le [of ?e] e0 e1 by simp
  moreover have "0 \<le> sin (pi / (real N - 1))"
    using N1 by (intro sin_ge_zero) (simp_all add: divide_le_eq) 
  ultimately have "\<bar>sin (pi / (real N - 1))\<bar> \<le> 2 * \<bar>sin ?x\<bar>" using lb by linarith
  then have "\<bar>sin (pi / (real N - 1))\<bar> / \<bar>sin ?x\<bar> \<le> 2" using x0 by (simp add: divide_le_eq)
  then show ?thesis unfolding cisSum_shift [OF _ s x0] using N cisSum_shift [of N s j] s x0 by simp
qed

subsection \<open>Bounds on the window transform at the bins\<close>

lemma range_side:
  fixes n jr s :: real
  assumes n: "4 \<le> n" and j: "2 \<le> \<bar>jr\<bar>" "\<bar>jr\<bar> \<le> n - 2" and s: "s = 1 \<or> s = - 1"
  shows "pi / (2 * (n - 1)) \<le> \<bar>pi * jr / n + s * pi / (n - 1)\<bar>"
    and "\<bar>pi * jr / n + s * pi / (n - 1)\<bar> \<le> pi - pi / (2 * (n - 1))"
proof -
  define a where "a = jr / n"
  define b where "b = 1 / (n - 1)"
  define c where "c = 2 / n"
  have b: "0 < b" using n by (simp add: b_def)
  have key: "3 * b / 2 \<le> c" using n by (simp add: b_def c_def field_simps)
  have a1: "c \<le> \<bar>a\<bar>" using n j(1) by (simp add: a_def c_def field_simps)
  have a2: "\<bar>a\<bar> \<le> 1 - c" using n j(2) by (simp add: a_def c_def field_simps)
  have sb: "\<bar>s * b\<bar> = b" using s b by auto
  have "\<bar>a\<bar> - \<bar>s * b\<bar> \<le> \<bar>a + s * b\<bar>" by linarith
  then have lo: "b / 2 \<le> \<bar>a + s * b\<bar>" using a1 key sb by linarith
  have "\<bar>a + s * b\<bar> \<le> \<bar>a\<bar> + \<bar>s * b\<bar>" by linarith
  then have hi: "\<bar>a + s * b\<bar> \<le> 1 - b / 2" using a2 key sb by linarith
  have e: "pi * jr / n + s * pi / (n - 1) = pi * (a + s * b)" by (simp add: a_def b_def algebra_simps)
  have h: "pi / (2 * (n - 1)) = pi * (b / 2)" by (simp add: b_def)
  have ap: "\<bar>pi * (a + s * b)\<bar> = pi * \<bar>a + s * b\<bar>" by (simp add: abs_mult)
  have "pi * (b / 2) \<le> pi * \<bar>a + s * b\<bar>" using lo by (intro mult_left_mono) simp_all
  then show "pi / (2 * (n - 1)) \<le> \<bar>pi * jr / n + s * pi / (n - 1)\<bar>"
    unfolding e h ap .
  have "pi * \<bar>a + s * b\<bar> \<le> pi * (1 - b / 2)" using hi by (intro mult_left_mono) simp_all
  also have "\<dots> = pi - pi * (b / 2)" by (simp add: right_diff_distrib)
  finally show "\<bar>pi * jr / n + s * pi / (n - 1)\<bar> \<le> pi - pi / (2 * (n - 1))"
    unfolding e h ap .
qed

lemma range_main:
  fixes n jr s :: real
  assumes n: "4 \<le> n" and j: "jr = s" and s: "s = 1 \<or> s = - 1"
  shows "pi / (2 * (n - 1)) \<le> \<bar>pi * jr / n + s * pi / (n - 1)\<bar>"
    and "\<bar>pi * jr / n + s * pi / (n - 1)\<bar> \<le> pi - pi / (2 * (n - 1))"
proof -
  define b where "b = 1 / (n - 1)"
  define c where "c = 1 / n"
  have b: "0 < b" using n by (simp add: b_def)
  have c: "0 < c" using n by (simp add: c_def)
  have "b \<le> 1 / 3" using n by (simp add: b_def field_simps)
  moreover have "c \<le> 1 / 4" using n by (simp add: c_def field_simps)
  ultimately have key: "c + 3 * b / 2 \<le> 1" by linarith
  have e: "pi * jr / n + s * pi / (n - 1) = pi * (s * (c + b))"
    unfolding j by (simp add: b_def c_def algebra_simps)
  have h: "pi / (2 * (n - 1)) = pi * (b / 2)" by (simp add: b_def)
  have "\<bar>s\<bar> = 1" using s by auto
  moreover have "\<bar>c + b\<bar> = c + b" using b c by simp
  ultimately have ap: "\<bar>pi * (s * (c + b))\<bar> = pi * (c + b)" by (simp add: abs_mult)
  have "pi * (b / 2) \<le> pi * (c + b)" using b c by (intro mult_left_mono) simp_all
  then show "pi / (2 * (n - 1)) \<le> \<bar>pi * jr / n + s * pi / (n - 1)\<bar>"
    unfolding e h ap .
  have "pi * (c + b) \<le> pi * (1 - b / 2)" using key by (intro mult_left_mono) simp_all
  also have "\<dots> = pi - pi * (b / 2)" by (simp add: right_diff_distrib)
  finally show "\<bar>pi * jr / n + s * pi / (n - 1)\<bar> \<le> pi - pi / (2 * (n - 1))"
    unfolding e h ap .
qed

lemma hannSum_side:
  assumes N: "4 \<le> N" and j: "2 \<le> \<bar>j\<bar>" "\<bar>j\<bar> \<le> int N - 2"
  shows "cmod (hannSum N (2 * pi * of_int j / real N)) \<le> 1"
proof -
  let ?a = "2 * pi * of_int j / real N" and ?t = "2 * pi / (real N - 1)"
  have n: "4 \<le> real N" using N by simp
  have jr: "2 \<le> \<bar>real_of_int j\<bar>" "\<bar>real_of_int j\<bar> \<le> real N - 2" using j by linarith+
  have g0: "cisSum N ?a = 0" using N j by (intro cisSum_bin) linarith+
  have g1: "cmod (cisSum N (?a + 1 * ?t)) \<le> 2"
    by (rule cisSum_small [OF N _ range_side [OF n jr]]) simp_all
  have g2: "cmod (cisSum N (?a + (- 1) * ?t)) \<le> 2"
    by (rule cisSum_small [OF N _ range_side [OF n jr]]) simp_all
  have "cmod (hannSum N ?a) = cmod (cisSum N (?a + ?t) + cisSum N (?a - ?t)) / 4"
    unfolding hannSum_cisSum g0 by (simp add: norm_divide)
  also have "\<dots> \<le> (cmod (cisSum N (?a + ?t)) + cmod (cisSum N (?a - ?t))) / 4"
    by (intro divide_right_mono norm_triangle_ineq) simp
  also have "\<dots> \<le> (2 + 2) / 4" using g1 g2 by simp
  finally show ?thesis by simp
qed

lemma hannSum_main:
  assumes N: "4 \<le> N" and j: "j = 1 \<or> j = - 1"
  shows "cmod (hannSum N (2 * pi * of_int j / real N)) \<le> (real N + 2) / 4"
proof -
  let ?a = "2 * pi * of_int j / real N" and ?t = "2 * pi / (real N - 1)"
  have n: "4 \<le> real N" using N by simp
  have g0: "cisSum N ?a = 0" using N j by (intro cisSum_bin) auto
  have js: "real_of_int j = 1 \<or> real_of_int j = - 1" using j by auto
  have g1: "cmod (cisSum N (?a + real_of_int j * ?t)) \<le> 2"
    by (rule cisSum_small [OF N js range_main [OF n refl js]])
  have g2: "cmod (cisSum N (?a - real_of_int j * ?t)) \<le> real N" by (rule cisSum_norm)
  have c: "cmod (cisSum N (?a + ?t) + cisSum N (?a - ?t)) = cmod (cisSum N (?a + real_of_int j * ?t) + cisSum N (?a - real_of_int j * ?t))"
    using j by (auto simp: add.commute)
  have "cmod (hannSum N ?a) = cmod (cisSum N (?a + ?t) + cisSum N (?a - ?t)) / 4"
    unfolding hannSum_cisSum g0 by (simp add: norm_divide)
  also have "\<dots> \<le> (cmod (cisSum N (?a + real_of_int j * ?t)) + cmod (cisSum N (?a - real_of_int j * ?t))) / 4"
    unfolding c by (intro divide_right_mono norm_triangle_ineq) simp
  also have "\<dots> \<le> (2 + real N) / 4" using g1 g2 by simp
  finally show ?thesis by simp
qed

lemma hannSum_zero:
  assumes N: "4 \<le> N"
  shows "hannSum N 0 = of_real ((real N - 1) / 2)"
proof -
  let ?t = "2 * pi / (real N - 1)"
  have N1: "3 \<le> real N - 1" using N by simp
  have g0: "cisSum N 0 = of_nat N" by (simp add: cisSum_def)
  have gs: "cisSum N (s * ?t) = 1" if s: "s = 1 \<or> s = - 1" for s :: real
  proof -
    have "0 < pi / (real N - 1)" using N1 by simp
    moreover have "pi / (real N - 1) < pi" using N1 by (simp add: divide_less_eq)
    ultimately have "0 < sin (pi / (real N - 1))" by (rule sin_gt_zero)
    moreover have "s * ?t / 2 = s * (pi / (real N - 1))" using N1 by (simp add: field_simps)
    ultimately have "sin (s * ?t / 2) \<noteq> 0" using s by auto
    then have "cmod (cis (s * ?t) - 1) \<noteq> 0" unfolding cmod_cis_minus_1 by simp
    then have ne: "cis (s * ?t) \<noteq> 1" by auto
    have "real N * (s * ?t) = s * ?t + 2 * pi * of_int (if s = 1 then 1 else - 1)"
      using N1 s by (auto simp: field_simps)
    then have "cis (real N * (s * ?t)) = cis (s * ?t)" by (simp only: cis_shift_2pi)
    then show ?thesis unfolding cisSum_geometric [OF ne] using ne by simp
  qed
  have "cisSum N (0 + ?t) = 1" "cisSum N (0 - ?t) = 1" using gs [of 1] gs [of "- 1"] by simp_all
  then show ?thesis unfolding hannSum_cisSum g0 by (simp add: field_simps)
qed

section \<open>The transform of a windowed sine\<close>

lemma sin_cis: "of_real (sin a) * (2 * \<i>) = cis a - cis (- a)"
  by (simp add: complex_eq_iff)

lemma sine_dft:
  assumes "0 < N"
  shows "dft N (\<lambda>u. of_real (sin (2 * pi * real k * real u / real N + \<phi>) * hann N u)) m * (2 * \<i>) =
     cis \<phi> * hannSum N (2 * pi * of_int (int k - int m) / real N) -
     cis (- \<phi>) * hannSum N (2 * pi * of_int (- (int k + int m)) / real N)"
proof -
  have t: "of_real (sin (2 * pi * real k * real u / real N + \<phi>) * hann N u) * cis (- 2 * pi / real N) ^ (u * m) * (2 * \<i>) =
      cis \<phi> * (of_real (hann N u) * cis (real u * (2 * pi * of_int (int k - int m) / real N))) -
      cis (- \<phi>) * (of_real (hann N u) * cis (real u * (2 * pi * of_int (- (int k + int m)) / real N)))" for u
  proof -
    let ?a = "2 * pi * real k * real u / real N" and ?b = "real u * (2 * pi * real m / real N)"
    have p: "cis (- 2 * pi / real N) ^ (u * m) = cis (- ?b)"
      by (simp add: DeMoivre algebra_simps)
    have "of_real (sin (?a + \<phi>) * hann N u) * cis (- ?b) * (2 * \<i>) =
        of_real (hann N u) * ((of_real (sin (?a + \<phi>)) * (2 * \<i>)) * cis (- ?b))" by (simp add: algebra_simps)
    also have "\<dots> = of_real (hann N u) * (cis (?a + \<phi> + - ?b) - cis (- (?a + \<phi>) + - ?b))"
      unfolding sin_cis by (simp only: left_diff_distrib cis_mult)
    also have "?a + \<phi> + - ?b = \<phi> + real u * (2 * pi * of_int (int k - int m) / real N)"
      using assms by (simp add: field_simps)
    also have "- (?a + \<phi>) + - ?b = - \<phi> + real u * (2 * pi * of_int (- (int k + int m)) / real N)"
      using assms by (simp add: field_simps)
    finally show ?thesis unfolding p by (simp only: cis_mult [symmetric]) (simp add: algebra_simps)
  qed
  show ?thesis
    unfolding dft_def hannSum_def sum_distrib_right sum_distrib_left t by (simp only: sum_subtractf)
qed

lemma sum_real_upto: "(\<Sum>n<N. real n) = real N * (real N - 1) / 2"
  by (induction N) (simp_all add: field_simps)

lemma cisSum_diff_small:
  assumes "0 \<le> d"
  shows "cmod (cisSum N (- d) - cisSum N d) \<le> d * (real N * (real N - 1))"
proof -
  have "cisSum N (- d) - cisSum N d = (\<Sum>n<N. cis (real n * - d) - cis (real n * d))"
    unfolding cisSum_def by (simp only: sum_subtractf)
  also have "cmod \<dots> \<le> (\<Sum>n<N. cmod (cis (real n * - d) - cis (real n * d)))" by (rule norm_sum)
  also have "\<dots> \<le> (\<Sum>n<N. 2 * (real n * d))"
  proof (rule sum_mono)
    fix n
    have "cis (real n * - d) - cis (real n * d) = - (of_real (sin (real n * d)) * (2 * \<i>))"
      unfolding sin_cis by simp
    then have "cmod (cis (real n * - d) - cis (real n * d)) = 2 * \<bar>sin (real n * d)\<bar>"
      by (simp add: norm_mult)
    also have "\<dots> \<le> 2 * \<bar>real n * d\<bar>"
      using abs_sin_x_le_abs_x [of "real n * d"] by simp
    also have "\<dots> = 2 * (real n * d)" using assms by simp
    finally show "cmod (cis (real n * - d) - cis (real n * d)) \<le> 2 * (real n * d)" .
  qed
  also have "\<dots> = 2 * d * (\<Sum>n<N. real n)" by (simp add: sum_distrib_left algebra_simps)
  also have "\<dots> = d * (real N * (real N - 1))" unfolding sum_real_upto by simp
  finally show ?thesis .
qed

subsection \<open>The bin of the sine dominates\<close>

lemma hannSum_pair_first:
  assumes N: "4 \<le> N"
  shows "cmod (hannSum N (2 * pi * of_int 1 / real N) - hannSum N (2 * pi * of_int (- 1) / real N)) \<le> 3"
proof -
  let ?k = "2 * pi * of_int 1 / real N" and ?k' = "2 * pi * of_int (- 1) / real N"
  let ?t = "2 * pi / (real N - 1)"
  let ?d = "?t - 2 * pi / real N"
  have n: "4 \<le> real N" using N by simp
  have g0: "cisSum N ?k = 0" "cisSum N ?k' = 0" using N by (intro cisSum_bin; simp)+
  have one: "real_of_int 1 = 1 \<or> real_of_int 1 = - 1"
    "real_of_int (- 1) = 1 \<or> real_of_int (- 1) = - 1" by simp_all
  have "cmod (cisSum N (2 * pi * of_int 1 / real N + real_of_int 1 * ?t)) \<le> 2"
    by (rule cisSum_small [OF N one(1) range_main [OF n refl one(1)]])
  then have a: "cmod (cisSum N (?k + 1 * ?t)) \<le> 2" by simp
  have "cmod (cisSum N (2 * pi * of_int (- 1) / real N + real_of_int (- 1) * ?t)) \<le> 2"
    by (rule cisSum_small [OF N one(2) range_main [OF n refl one(2)]])
  then have b: "cmod (cisSum N (?k' + (- 1) * ?t)) \<le> 2" by simp
  have d0: "0 \<le> ?d" using n by (simp add: field_simps)
  have dN: "?d * (real N * (real N - 1)) = 2 * pi" using n by (simp add: field_simps)
  have c: "cmod (cisSum N (- ?d) - cisSum N ?d) \<le> 2 * pi"
    using cisSum_diff_small [OF d0, of N] unfolding dN .
  have e1: "?k - ?t = - ?d" "?k' + ?t = ?d" by simp_all
  define X where "X = (cisSum N (?k + 1 * ?t) - cisSum N (?k' + (- 1) * ?t)) + (cisSum N (- ?d) - cisSum N ?d)"
  have "hannSum N ?k - hannSum N ?k' = - X / 4"
    unfolding hannSum_cisSum g0 e1 X_def by (simp add: field_simps)
  then have "cmod (hannSum N ?k - hannSum N ?k') = cmod (- X / 4)" by (rule arg_cong)
  also have "\<dots> = cmod X / 4" by (simp add: norm_divide)
  also have "\<dots> =
      cmod ((cisSum N (?k + 1 * ?t) - cisSum N (?k' + (- 1) * ?t)) + (cisSum N (- ?d) - cisSum N ?d)) / 4"
    unfolding X_def ..
  also have "\<dots> \<le> (cmod (cisSum N (?k + 1 * ?t) - cisSum N (?k' + (- 1) * ?t)) + cmod (cisSum N (- ?d) - cisSum N ?d)) / 4"
    by (intro divide_right_mono norm_triangle_ineq) simp
  also have "\<dots> \<le> ((cmod (cisSum N (?k + 1 * ?t)) + cmod (cisSum N (?k' + (- 1) * ?t))) + cmod (cisSum N (- ?d) - cisSum N ?d)) / 4"
    by (intro divide_right_mono add_right_mono norm_triangle_ineq4) simp
  also have "\<dots> \<le> ((2 + 2) + 2 * pi) / 4" using a b c by simp
  also have "\<dots> \<le> 3" using pi_less_4 by simp
  finally show ?thesis .
qed

lemma hannSum_any:
  assumes N: "4 \<le> N" and j: "j \<noteq> 0" "\<bar>j\<bar> \<le> int N - 2"
  shows "cmod (hannSum N (2 * pi * of_int j / real N)) \<le> (real N + 2) / 4"
proof (cases "2 \<le> \<bar>j\<bar>")
  case True
  have "cmod (hannSum N (2 * pi * of_int j / real N)) \<le> 1" by (rule hannSum_side [OF N True j(2)])
  also have "1 \<le> (real N + 2) / 4" using N by simp
  finally show ?thesis .
next
  case False
  with j(1) have "j = 1 \<or> j = - 1" by linarith
  then show ?thesis by (rule hannSum_main [OF N])
qed

lemma windowed_sine_dominant:
  assumes N: "16 \<le> N" and k: "0 < k" "k < N div 2" and m: "m < N div 2" "m \<noteq> k"
    and ph: "\<phi> = 0 \<or> 2 \<le> k + m"
  shows "cmod (cis \<phi> * hannSum N (2 * pi * of_int (int k - int m) / real N) -
               cis (- \<phi>) * hannSum N (2 * pi * of_int (- (int k + int m)) / real N))
       < cmod (cis \<phi> * hannSum N (2 * pi * of_int (int k - int k) / real N) -
               cis (- \<phi>) * hannSum N (2 * pi * of_int (- (int k + int k)) / real N))"
proof -
  define a where "a = hannSum N (2 * pi * of_int (int k - int m) / real N)"
  define b where "b = hannSum N (2 * pi * of_int (- (int k + int m)) / real N)"
  define c where "c = hannSum N (2 * pi * of_int (int k - int k) / real N)"
  define d where "d = hannSum N (2 * pi * of_int (- (int k + int k)) / real N)"
  have n: "cmod (cis \<phi> * z) = cmod z" "cmod (cis (- \<phi>) * z) = cmod z" for z
    by (simp_all add: norm_mult)
  have N4: "4 \<le> N" using N by simp
  have k2: "2 * k + 2 \<le> N" using k(2) by linarith
  have m2: "2 * m + 2 \<le> N" using m(1) by linarith
  have d1: "cmod d \<le> 1"
    unfolding d_def using k(1) k2 by (intro hannSum_side [OF N4]) linarith+
  have c1: "cmod c = (real N - 1) / 2"
  proof -
    have "c = of_real ((real N - 1) / 2)"
      unfolding c_def using hannSum_zero [OF N4] by simp
    moreover have "cmod (of_real ((real N - 1) / 2) :: complex) = (real N - 1) / 2"
      using N by (simp only: norm_of_real) simp
    ultimately show ?thesis by (rule ssubst)
  qed
  have big: "(real N - 1) / 2 - 1 \<le> cmod (cis \<phi> * c - cis (- \<phi>) * d)"
    using norm_triangle_ineq2 [of "cis \<phi> * c" "cis (- \<phi>) * d"] d1 c1 unfolding n by linarith
  have small: "cmod (cis \<phi> * a - cis (- \<phi>) * b) \<le> (real N + 2) / 4 + 1"
  proof (cases "2 \<le> k + m")
    case True
    have a1: "cmod a \<le> (real N + 2) / 4"
      unfolding a_def using m(2) k2 m2 by (intro hannSum_any [OF N4]) linarith+
    have b1: "cmod b \<le> 1"
      unfolding b_def using True k2 m2 by (intro hannSum_side [OF N4]) linarith+
    show ?thesis
      using norm_triangle_ineq4 [of "cis \<phi> * a" "cis (- \<phi>) * b"] a1 b1 unfolding n by linarith
  next
    case False
    with k(1) have km: "k = 1" "m = 0" by linarith+
    from False ph have p0: "\<phi> = 0" by simp
    have "cmod (a - b) \<le> 3"
      unfolding a_def b_def km using hannSum_pair_first [OF N4] by simp
    also have "3 \<le> (real N + 2) / 4 + 1" using N by simp
    finally show ?thesis unfolding p0 by simp
  qed
  have "16 \<le> real N" using N by simp
  then have "(real N + 2) / 4 + 1 < (real N - 1) / 2 - 1" by (simp add: field_simps)
  with small big show ?thesis unfolding a_def b_def c_def d_def by linarith
qed

section \<open>The magnitude spectrum of a sine frame\<close>

lemma dft_cong:
  assumes "\<And>u. u < n \<Longrightarrow> x u = y u"
  shows "dft n x m = dft n y m"
  unfolding dft_def by (rule sum.cong [OF refl]) (simp add: assms)

lemma getMagnitudeSpectrum_dft:
  assumes F: "F = 2 ^ q" and s: "length s = F" and m: "m < F div 2"
  shows "getMagnitudeSpectrum s F ! m = cmod (dft F (\<lambda>u. of_real (s ! u * hann F u)) m)"
proof -
  let ?re0 = "map (\<lambda>i. (if i < length s then s ! i else 0) * hann F i) [0..<F]"
  let ?im0 = "replicate F (0::real)"
  let ?r = "fft ?re0 ?im0"
  have l: "length ?re0 = 2 ^ q" "length ?im0 = 2 ^ q" using F by simp_all
  have mF: "m < 2 ^ q" using m F by simp
  have "cz (fst ?r) (snd ?r) m = dft (2 ^ q) (cz ?re0 ?im0) m" by (rule fft_dft [OF l mF])
  also have "\<dots> = dft F (cz ?re0 ?im0) m" unfolding F ..
  also have "\<dots> = dft F (\<lambda>u. of_real (s ! u * hann F u)) m"
  proof (rule dft_cong)
    fix u assume "u < F"
    then show "cz ?re0 ?im0 u = of_real (s ! u * hann F u)"
      using s by (simp add: cz_def complex_eq_iff)
  qed
  finally have c: "cz (fst ?r) (snd ?r) m = dft F (\<lambda>u. of_real (s ! u * hann F u)) m" .
  have "getMagnitudeSpectrum s F ! m = sqrt (fst ?r ! m * fst ?r ! m + snd ?r ! m * snd ?r ! m)"
    using m by (simp add: getMagnitudeSpectrum_def Let_def)
  also have "\<dots> = cmod (cz (fst ?r) (snd ?r) m)"
    by (simp add: cz_def cmod_def power2_eq_square)
  finally show ?thesis unfolding c .
qed

lemma dft_scale: "dft n (\<lambda>u. c * x u) m = c * dft n x m"
  unfolding dft_def by (simp add: sum_distrib_left mult.assoc)

lemma sineFrame_aligned:
  assumes rate: "0 < rate" and f: "f = real k * rate / real F" and u: "u < F"
  shows "sineFrame rate f amp \<phi> F ! u = amp * sin (2 * pi * real k * real u / real F + \<phi>)"
proof -
  have "2 * pi * f * real u / rate = 2 * pi * real k * real u / real F"
    using rate unfolding f by simp
  then show ?thesis using u by (simp add: sineFrame_def)
qed

lemma sineFrame_bin:
  assumes rate: "0 < rate" and f: "f = real k * rate / real F" and F: "0 < F"
  shows "nat (js_round (f * real F / rate)) = k"
proof -
  have "f * real F / rate = real k" using rate F unfolding f by simp
  then show ?thesis by (simp add: js_round_def)
qed

lemma sine_spectrum:
  assumes F: "F = 2 ^ q" and rate: "0 < rate" and f: "f = real k * rate / real F"
    and m: "m < F div 2"
  shows "2 * getMagnitudeSpectrum (sineFrame rate f amp \<phi> F) F ! m =
     \<bar>amp\<bar> * cmod (cis \<phi> * hannSum F (2 * pi * of_int (int k - int m) / real F) -
                  cis (- \<phi>) * hannSum F (2 * pi * of_int (- (int k + int m)) / real F))"
proof -
  have F0: "0 < F" using F by simp
  have l: "length (sineFrame rate f amp \<phi> F) = F" by (simp add: sineFrame_def)
  let ?x = "\<lambda>u. of_real (sin (2 * pi * real k * real u / real F + \<phi>) * hann F u) :: complex"
  have "getMagnitudeSpectrum (sineFrame rate f amp \<phi> F) F ! m =
      cmod (dft F (\<lambda>u. of_real (sineFrame rate f amp \<phi> F ! u * hann F u)) m)"
    by (rule getMagnitudeSpectrum_dft [OF F l m])
  also have "dft F (\<lambda>u. of_real (sineFrame rate f amp \<phi> F ! u * hann F u)) m =
      dft F (\<lambda>u. of_real amp * ?x u) m"
    by (rule dft_cong) (simp add: sineFrame_aligned [OF rate f])
  also have "\<dots> = of_real amp * dft F ?x m" by (rule dft_scale)
  finally have "2 * getMagnitudeSpectrum (sineFrame rate f amp \<phi> F) F ! m =
      \<bar>amp\<bar> * cmod (dft F ?x m * (2 * \<i>))"
    by (simp add: norm_mult)
  then show ?thesis unfolding sine_dft [OF F0] .
qed

text \<open>
  Claim C3, amended. For a bin-aligned frequency \<open>f = k * rate / F\<close> with \<open>0 < k < F / 2\<close>,
  the magnitude spectrum of a frame holding the sine wave
  \<open>amp * sin (2 * pi * f * n / rate + phase)\<close>, of any amplitude but 0, has its unique maximum
  at the bin \<open>round (f * F / rate)\<close>, every other bin being strictly smaller, when the wave
  starts the frame at phase 0 or the bin is 2 or more. The frame length is a power of two
  from 16 on, which covers the lengths 2048 and 8192 of the two passes.
\<close>

theorem sine_peak:
  assumes F: "F = 2 ^ q" "4 \<le> q" and rate: "0 < rate" and amp: "amp \<noteq> 0"
    and k: "0 < k" "k < F div 2" and f: "f = real k * rate / real F"
    and ph: "phase = 0 \<or> 2 \<le> k"
    and m: "m < F div 2" "m \<noteq> nat (js_round (f * real F / rate))"
  shows "getMagnitudeSpectrum (sineFrame rate f amp phase F) F ! m <
         getMagnitudeSpectrum (sineFrame rate f amp phase F) F ! nat (js_round (f * real F / rate))"
proof -
  have "(2::nat) ^ 4 \<le> 2 ^ q" using F(2) by (intro power_increasing) simp_all
  then have N: "16 \<le> F" using F(1) by simp
  have b: "nat (js_round (f * real F / rate)) = k"
    using rate f by (rule sineFrame_bin) (use N in simp)
  have mk: "m \<noteq> k" using m(2) unfolding b .
  from ph have ph': "phase = 0 \<or> 2 \<le> k + m" by auto
  have "cmod (cis phase * hannSum F (2 * pi * of_int (int k - int m) / real F) -
              cis (- phase) * hannSum F (2 * pi * of_int (- (int k + int m)) / real F))
      < cmod (cis phase * hannSum F (2 * pi * of_int (int k - int k) / real F) -
              cis (- phase) * hannSum F (2 * pi * of_int (- (int k + int k)) / real F))"
    by (rule windowed_sine_dominant [OF N k m(1) mk ph'])
  then have "2 * getMagnitudeSpectrum (sineFrame rate f amp phase F) F ! m <
        2 * getMagnitudeSpectrum (sineFrame rate f amp phase F) F ! k"
    unfolding sine_spectrum [OF F(1) rate f m(1)] sine_spectrum [OF F(1) rate f k(2)]
    using amp by simp
  then show ?thesis unfolding b by simp
qed

text \<open>
  Claim C3, witness: bin 100 of a frame of 2048 samples, at amplitude 1/2 and phase
  \<open>pi / 3\<close>, against bin 5; and bin 1 of a frame of 8192 samples, at phase 0, against bin 0.
\<close>

theorem sine_peak_witness:
  "getMagnitudeSpectrum (sineFrame 44100 (real 100 * 44100 / real 2048) (1 / 2) (pi / 3) 2048) 2048 ! 5 <
   getMagnitudeSpectrum (sineFrame 44100 (real 100 * 44100 / real 2048) (1 / 2) (pi / 3) 2048) 2048 !
     nat (js_round (real 100 * 44100 / real 2048 * real 2048 / 44100)) \<and>
   getMagnitudeSpectrum (sineFrame 48000 (real 1 * 48000 / real 8192) 1 0 8192) 8192 ! 0 <
   getMagnitudeSpectrum (sineFrame 48000 (real 1 * 48000 / real 8192) 1 0 8192) 8192 !
     nat (js_round (real 1 * 48000 / real 8192 * real 8192 / 48000))"
proof -
  have F: "(2048::nat) = 2 ^ 11" and G: "(8192::nat) = 2 ^ 13" by simp_all
  have a: "getMagnitudeSpectrum (sineFrame 44100 (real 100 * 44100 / real 2048) (1 / 2) (pi / 3) 2048) 2048 ! 5 <
      getMagnitudeSpectrum (sineFrame 44100 (real 100 * 44100 / real 2048) (1 / 2) (pi / 3) 2048) 2048 !
        nat (js_round (real 100 * 44100 / real 2048 * real 2048 / 44100))"
    by (rule sine_peak [OF F, of 44100 "1 / 2" 100 _ "pi / 3" 5]) (simp_all add: js_round_def)
  have b: "getMagnitudeSpectrum (sineFrame 48000 (real 1 * 48000 / real 8192) 1 0 8192) 8192 ! 0 <
      getMagnitudeSpectrum (sineFrame 48000 (real 1 * 48000 / real 8192) 1 0 8192) 8192 !
        nat (js_round (real 1 * 48000 / real 8192 * real 8192 / 48000))"
    by (rule sine_peak [OF G, of 48000 1 1 _ 0 0]) (simp_all add: js_round_def)
  from a b show ?thesis by (rule conjI)
qed

section \<open>A cosine at the first bin\<close>

lemma cos_quadratic: "1 - x\<^sup>2 / 2 \<le> cos (x::real)"
proof -
  have "\<bar>sin (x / 2)\<bar> \<le> \<bar>x / 2\<bar>" by (rule abs_sin_x_le_abs_x)
  then have "\<bar>sin (x / 2)\<bar>\<^sup>2 \<le> \<bar>x / 2\<bar>\<^sup>2" by (intro power_mono) simp_all
  then have "(sin (x / 2))\<^sup>2 \<le> x\<^sup>2 / 4" by (simp add: power_divide)
  moreover have "cos x = 1 - 2 * (sin (x / 2))\<^sup>2" using cos_double_sin [of "x / 2"] by simp
  ultimately show ?thesis by linarith
qed

lemma sin_small:
  assumes "0 \<le> x" "x \<le> 1 / 5"
  shows "99 / 100 * x \<le> sin (x::real)"
proof -
  have "\<bar>sin x - (\<Sum>m<3. sin_coeff m * x ^ m)\<bar> \<le> inverse (fact 3) * \<bar>x\<bar> ^ 3"
    by (rule Maclaurin_sin_bound)
  moreover have "(\<Sum>m<3. sin_coeff m * x ^ m) = x"
    by (simp add: sin_coeff_def numeral_3_eq_3)
  moreover have "inverse (fact 3) * \<bar>x\<bar> ^ 3 = x ^ 3 / 6"
  proof -
    have "fact 3 = (6::real)" by (simp add: numeral_3_eq_3)
    moreover have "\<bar>x\<bar> = x" using assms by simp
    ultimately show ?thesis by (simp only: divide_inverse mult.commute)
  qed
  ultimately have a: "x - x ^ 3 / 6 \<le> sin x" by linarith
  have "x * x \<le> (1 / 5) * (1 / 5)" using assms by (intro mult_mono) simp_all
  then have "x * (x * x) \<le> x * (1 / 25)" using assms by (intro mult_left_mono) simp_all
  then have "x ^ 3 \<le> x / 25" by (simp add: power3_eq_cube mult.assoc)
  with a assms(1) show ?thesis by linarith
qed

lemma cis_minus_1: "cis x - 1 = cis (x / 2) * (of_real (sin (x / 2)) * (2 * \<i>))"
proof -
  have "cis (x / 2) * (cis (x / 2) - cis (- (x / 2))) = cis x - 1"
    by (simp add: right_diff_distrib cis_mult)
  then show ?thesis unfolding sin_cis by simp
qed

lemma cisSum_dirichlet:
  assumes "sin (\<alpha> / 2) \<noteq> 0"
  shows "cisSum N \<alpha> = of_real (sin (real N * \<alpha> / 2) / sin (\<alpha> / 2)) * cis ((real N - 1) * \<alpha> / 2)"
proof -
  have "cmod (cis \<alpha> - 1) \<noteq> 0" unfolding cmod_cis_minus_1 using assms by simp
  then have ne: "cis \<alpha> \<noteq> 1" by auto
  have s: "(of_real (sin (\<alpha> / 2)) :: complex) \<noteq> 0" using assms by simp
  have c: "cis (real N * \<alpha> / 2) = cis ((real N - 1) * \<alpha> / 2) * cis (\<alpha> / 2)"
    by (simp add: cis_mult algebra_simps diff_divide_distrib)
  have "cisSum N \<alpha> = (cis (real N * \<alpha>) - 1) / (cis \<alpha> - 1)" by (rule cisSum_geometric [OF ne])
  also have "\<dots> = (cis (real N * \<alpha> / 2) * (of_real (sin (real N * \<alpha> / 2)) * (2 * \<i>))) /
      (cis (\<alpha> / 2) * (of_real (sin (\<alpha> / 2)) * (2 * \<i>)))"
    by (simp only: cis_minus_1 [of "real N * \<alpha>"] cis_minus_1 [of \<alpha>])
  also have "\<dots> = of_real (sin (real N * \<alpha> / 2) / sin (\<alpha> / 2)) * cis ((real N - 1) * \<alpha> / 2)"
    unfolding c using s by (simp add: field_simps)
  finally show ?thesis .
qed

lemma Re_cisSum_lower: "real N - real N * (real N * d)\<^sup>2 / 2 \<le> Re (cisSum N d)"
proof -
  have "Re (cisSum N d) = (\<Sum>n<N. cos (real n * d))" by (simp add: cisSum_def)
  moreover have "(\<Sum>n<N. 1 - (real N * d)\<^sup>2 / 2) \<le> (\<Sum>n<N. cos (real n * d))"
  proof (rule sum_mono)
    fix n assume "n \<in> {..<N}"
    then have "real n \<le> real N" by simp
    then have "\<bar>real n * d\<bar> \<le> \<bar>real N * d\<bar>" by (simp add: abs_mult mult_right_mono)
    then have "\<bar>real n * d\<bar>\<^sup>2 \<le> \<bar>real N * d\<bar>\<^sup>2" by (intro power_mono) simp_all
    then have "(real n * d)\<^sup>2 \<le> (real N * d)\<^sup>2" by simp
    with cos_quadratic [of "real n * d"] show "1 - (real N * d)\<^sup>2 / 2 \<le> cos (real n * d)" by linarith
  qed
  moreover have "(\<Sum>n<N. 1 - (real N * d)\<^sup>2 / 2) = real N - real N * (real N * d)\<^sup>2 / 2"
    by (simp add: algebra_simps)
  ultimately show ?thesis by linarith
qed

lemma hannSum_cnj: "hannSum N (- \<alpha>) = cnj (hannSum N \<alpha>)"
  unfolding hannSum_def by (simp add: cis_cnj)

lemma sine_ratio_upper:
  assumes "0 \<le> a" "0 < b" "b \<le> 1 / 5" "0 \<le> c" "a \<le> c * (99 / 100 * b)"
  shows "sin a / sin b \<le> (c::real)"
proof -
  have sb: "99 / 100 * b \<le> sin b" using assms by (intro sin_small) simp_all
  then have sb0: "0 < sin b" using assms(2) by linarith
  have "sin a \<le> a" using assms(1) by (rule sin_x_le_x)
  also have "a \<le> c * (99 / 100 * b)" by fact
  also have "\<dots> \<le> c * sin b" using sb assms(4) by (rule mult_left_mono)
  finally show ?thesis using sb0 by (simp add: divide_le_eq)
qed

lemma sine_ratio_lower:
  assumes "0 \<le> a" "a \<le> 1 / 5" "0 < b" "b \<le> 1 / 5" "0 \<le> c" "c * b \<le> 99 / 100 * a"
  shows "(c::real) \<le> sin a / sin b"
proof -
  have "99 / 100 * b \<le> sin b" using assms by (intro sin_small) simp_all
  then have sb0: "0 < sin b" using assms(3) by linarith
  have "sin b \<le> b" using assms(3) by (intro sin_x_le_x) simp
  then have "c * sin b \<le> c * b" using assms(5) by (rule mult_left_mono)
  also have "\<dots> \<le> 99 / 100 * a" by fact
  also have "\<dots> \<le> sin a" using assms by (intro sin_small) simp_all
  finally show ?thesis using sb0 by (simp add: le_divide_eq)
qed

lemma cosine_main:
  "Re (hannSum 2048 (2 * pi * of_int 1 / real 2048)) \<le> - (5121 / 10)"
proof -
  let ?N = "2048::nat"
  let ?k = "2 * pi * of_int 1 / real ?N" and ?t = "2 * pi / (real ?N - 1)"
  have p: "0 < pi" "pi < 4" using pi_gt_zero pi_less_4 by simp_all
  have g0: "cisSum ?N ?k = 0" by (rule cisSum_bin) simp_all
  have lo: "real ?N - 1 / 50 \<le> Re (cisSum ?N (?k - ?t))"
  proof -
    have "real ?N * (?k - ?t) = - (2 * pi / 2047)" by simp
    then have "(real ?N * (?k - ?t))\<^sup>2 = (2 * pi / 2047)\<^sup>2" by simp
    also have "\<dots> \<le> (8 / 2047)\<^sup>2" using p by (intro power_mono) simp_all
    finally have "real ?N * (real ?N * (?k - ?t))\<^sup>2 / 2 \<le> 1 / 50"
      by (simp add: power2_eq_square)
    with Re_cisSum_lower [of ?N "?k - ?t"] show ?thesis by linarith
  qed
  have up: "49 / 100 \<le> Re (cisSum ?N (?k + ?t))"
  proof -
    let ?a = "pi / 2047" and ?b = "pi / 2048 + pi / 2047"
    have h: "(?k + ?t) / 2 = ?b" by simp
    have r: "99 / 200 \<le> sin ?a / sin ?b"
      using p by (intro sine_ratio_lower) simp_all
    have b0: "0 < sin ?b" using p by (intro sin_gt_zero) simp_all
    have "cos (pi / 2048) \<ge> 1 - (pi / 2048)\<^sup>2 / 2" by (rule cos_quadratic)
    moreover have "(pi / 2048)\<^sup>2 \<le> (4 / 2048)\<^sup>2" using p by (intro power_mono) simp_all
    ultimately have c: "99 / 100 \<le> cos (pi / 2048)" by (simp add: power2_eq_square)
    have "real ?N * (?k + ?t) / 2 = ?a + 2 * pi" by simp
    then have s1: "sin (real ?N * (?k + ?t) / 2) = sin ?a" by (simp only: sin_periodic)
    have "(real ?N - 1) * (?k + ?t) / 2 = - (pi / 2048) + 2 * pi" by simp
    then have c1: "cos ((real ?N - 1) * (?k + ?t) / 2) = cos (pi / 2048)"
      by (simp only: cos_periodic cos_minus)
    have "sin ((?k + ?t) / 2) \<noteq> 0" unfolding h using b0 by simp
    then have "cisSum ?N (?k + ?t) =
        of_real (sin (real ?N * (?k + ?t) / 2) / sin ((?k + ?t) / 2)) * cis ((real ?N - 1) * (?k + ?t) / 2)"
      by (rule cisSum_dirichlet)
    then have "Re (cisSum ?N (?k + ?t)) =
        sin (real ?N * (?k + ?t) / 2) / sin ((?k + ?t) / 2) * cos ((real ?N - 1) * (?k + ?t) / 2)"
      by (simp only: Re_complex_of_real Im_complex_of_real complex.sel times_complex.sel cis.sel)
    then have "Re (cisSum ?N (?k + ?t)) = sin ?a / sin ?b * cos (pi / 2048)"
      unfolding s1 c1 h .
    moreover have "0 \<le> sin ?a / sin ?b" using r by linarith
    then have "99 / 200 * (99 / 100) \<le> sin ?a / sin ?b * cos (pi / 2048)"
      by (intro mult_mono [OF r c]) simp_all
    ultimately show ?thesis by simp
  qed
  have "Re (hannSum ?N ?k) = - (Re (cisSum ?N (?k + ?t)) + Re (cisSum ?N (?k - ?t))) / 4"
    unfolding hannSum_cisSum g0 by (simp add: field_simps)
  with lo up show ?thesis by simp
qed

lemma cosine_side:
  "cmod (hannSum 2048 (2 * pi * of_int (- 2) / real 2048)) \<le> 7 / 20"
proof -
  let ?N = "2048::nat"
  let ?k = "2 * pi * of_int (- 2) / real ?N" and ?t = "2 * pi / (real ?N - 1)"
  have p: "0 < pi" "pi < 4" using pi_gt_zero pi_less_4 by simp_all
  have g0: "cisSum ?N ?k = 0" by (rule cisSum_bin) simp_all
  have a0: "0 < sin (pi / 2047)" using p by (intro sin_gt_zero) simp_all
  have one: "(1::real) = 1 \<or> (1::real) = - 1" "(- 1::real) = 1 \<or> (- 1::real) = - 1" by simp_all
  have g1: "cmod (cisSum ?N (?k + 1 * ?t)) \<le> 51 / 50"
  proof -
    let ?b = "pi / 1024 - pi / 2047"
    have r: "sin (pi / 2047) / sin ?b \<le> 51 / 50"
      using p by (intro sine_ratio_upper) simp_all
    have b0: "0 < sin ?b" using p by (intro sin_gt_zero) simp_all
    have x: "pi * of_int (- 2) / real ?N + 1 * pi / (real ?N - 1) = - ?b" by simp
    have "sin (pi * of_int (- 2) / real ?N + 1 * pi / (real ?N - 1)) \<noteq> 0"
      unfolding x using b0 by simp
    then have "cmod (cisSum ?N (?k + 1 * ?t)) =
        \<bar>sin (pi / (real ?N - 1))\<bar> / \<bar>sin (pi * of_int (- 2) / real ?N + 1 * pi / (real ?N - 1))\<bar>"
      by (intro cisSum_shift one) simp_all
    also have "\<dots> = sin (pi / 2047) / sin ?b" unfolding x using a0 b0 by simp
    finally show ?thesis using r by simp
  qed
  have g2: "cmod (cisSum ?N (?k + (- 1) * ?t)) \<le> 7 / 20"
  proof -
    let ?b = "pi / 1024 + pi / 2047"
    have r: "sin (pi / 2047) / sin ?b \<le> 7 / 20"
      using p by (intro sine_ratio_upper) simp_all
    have b0: "0 < sin ?b" using p by (intro sin_gt_zero) simp_all
    have x: "pi * of_int (- 2) / real ?N + (- 1) * pi / (real ?N - 1) = - ?b" by simp
    have "sin (pi * of_int (- 2) / real ?N + (- 1) * pi / (real ?N - 1)) \<noteq> 0"
      unfolding x using b0 by simp
    then have "cmod (cisSum ?N (?k + (- 1) * ?t)) =
        \<bar>sin (pi / (real ?N - 1))\<bar> / \<bar>sin (pi * of_int (- 2) / real ?N + (- 1) * pi / (real ?N - 1))\<bar>"
      by (intro cisSum_shift one) simp_all
    also have "\<dots> = sin (pi / 2047) / sin ?b" unfolding x using a0 b0 by simp
    finally show ?thesis using r by simp
  qed
  have "hannSum ?N ?k = - (cisSum ?N (?k + 1 * ?t) + cisSum ?N (?k + (- 1) * ?t)) / 4"
    unfolding hannSum_cisSum g0 by (simp add: field_simps)
  then have "cmod (hannSum ?N ?k) = cmod (cisSum ?N (?k + 1 * ?t) + cisSum ?N (?k + (- 1) * ?t)) / 4"
    by (simp only: norm_divide norm_minus_cancel) simp
  also have "\<dots> \<le> (cmod (cisSum ?N (?k + 1 * ?t)) + cmod (cisSum ?N (?k + (- 1) * ?t))) / 4"
    by (intro divide_right_mono norm_triangle_ineq) simp
  also have "\<dots> \<le> (51 / 50 + 7 / 20) / 4" using g1 g2 by simp
  finally show ?thesis by simp
qed

text \<open>
  Claim C3 as it is stated fails for the wave of bin 1 that starts the frame at its crest
  (phase \<open>pi / 2\<close>): the frame that the tempo pass cuts at sample 512 from
  \<open>sin (2 * pi * n / 2048)\<close>. Its spectrum is larger at bin 0 than at bin 1, the bin
  \<open>round (f * F / rate)\<close>.
\<close>

theorem sine_peak_counterexample:
  "nat (js_round (real 1 * 44100 / real 2048 * real 2048 / 44100)) = 1 \<and>
   getMagnitudeSpectrum (sineFrame 44100 (real 1 * 44100 / real 2048) 1 (pi / 2) 2048) 2048 ! 1 <
   getMagnitudeSpectrum (sineFrame 44100 (real 1 * 44100 / real 2048) 1 (pi / 2) 2048) 2048 ! 0"
proof -
  let ?N = "2048::nat"
  let ?s = "sineFrame 44100 (real 1 * 44100 / real ?N) 1 (pi / 2) ?N"
  define z where "z = hannSum ?N (2 * pi * of_int 1 / real ?N)"
  define y where "y = hannSum ?N (2 * pi * of_int (- 2) / real ?N)"
  have F: "?N = 2 ^ 11" by simp
  have i: "cis (pi / 2) = \<i>" "cis (- (pi / 2)) = - \<i>" by (simp_all add: complex_eq_iff)
  have z': "hannSum ?N (pi / 1024) = z" unfolding z_def by simp
  have zc: "hannSum ?N (- (pi / 1024)) = cnj z" unfolding z' [symmetric] by (rule hannSum_cnj)
  have y': "hannSum ?N (- (pi / 512)) = y" unfolding y_def by simp
  have "2 * getMagnitudeSpectrum ?s ?N ! 0 =
      \<bar>1\<bar> * cmod (cis (pi / 2) * hannSum ?N (2 * pi * of_int (int 1 - int 0) / real ?N) -
                 cis (- (pi / 2)) * hannSum ?N (2 * pi * of_int (- (int 1 + int 0)) / real ?N))"
    by (rule sine_spectrum [OF F]) simp_all
  also have "\<dots> = cmod (\<i> * (z + cnj z))"
    unfolding i by (simp add: zc z' algebra_simps)
  also have "\<dots> = 2 * \<bar>Re z\<bar>" unfolding complex_add_cnj by (simp add: norm_mult)
  finally have m0: "getMagnitudeSpectrum ?s ?N ! 0 = \<bar>Re z\<bar>" by simp
  have "2 * getMagnitudeSpectrum ?s ?N ! 1 =
      \<bar>1\<bar> * cmod (cis (pi / 2) * hannSum ?N (2 * pi * of_int (int 1 - int 1) / real ?N) -
                 cis (- (pi / 2)) * hannSum ?N (2 * pi * of_int (- (int 1 + int 1)) / real ?N))"
    by (rule sine_spectrum [OF F]) simp_all
  also have "\<dots> = cmod (\<i> * (hannSum ?N 0 + y))"
    unfolding i by (simp add: y' algebra_simps)
  also have "\<dots> = cmod (of_real ((real ?N - 1) / 2) + y)"
  proof -
    have "hannSum ?N 0 = of_real ((real ?N - 1) / 2)" by (rule hannSum_zero) simp
    then show ?thesis by (simp only: norm_mult norm_ii mult_1)
  qed
  also have "\<dots> \<le> cmod (of_real ((real ?N - 1) / 2) :: complex) + cmod y" by (rule norm_triangle_ineq)
  also have "\<dots> \<le> (real ?N - 1) / 2 + 7 / 20"
    using cosine_side unfolding y_def [symmetric] by (simp only: norm_of_real) simp
  finally have m1: "getMagnitudeSpectrum ?s ?N ! 1 \<le> 2047 / 4 + 7 / 40" by simp
  have "Re z \<le> - (5121 / 10)" unfolding z_def by (rule cosine_main)
  then have "5121 / 10 \<le> \<bar>Re z\<bar>" by linarith
  with m0 m1 have "getMagnitudeSpectrum ?s ?N ! 1 < getMagnitudeSpectrum ?s ?N ! 0" by linarith
  moreover have "nat (js_round (real 1 * 44100 / real ?N * real ?N / 44100)) = 1"
    by (simp add: js_round_def)
  ultimately show ?thesis by simp
qed

section \<open>A tone of exactly one frame\<close>

lemma specFrameStarts_exact: "0 < H \<Longrightarrow> 0 < F \<Longrightarrow> specFrameStarts F H F = [0]"
proof -
  assume H: "0 < H" and F: "0 < F"
  have "[0..<Suc F] = 0 # [Suc 0..<Suc F]" by (rule upt_conv_Cons) simp
  also have "[Suc 0..<Suc F] = Suc 0 # [Suc (Suc 0)..<Suc F]" using F by (intro upt_conv_Cons) simp
  finally show ?thesis using H by (simp add: specFrameStarts_def)
qed

lemma sum_list_pos:
  fixes f :: "'a \<Rightarrow> real"
  assumes "\<forall>x\<in>set xs. 0 \<le> f x" "y \<in> set xs" "0 < f y"
  shows "0 < (\<Sum>x\<leftarrow>xs. f x)"
  using assms
proof (induction xs)
  case Nil
  then show ?case by simp
next
  case (Cons a xs)
  have nn: "0 \<le> (\<Sum>x\<leftarrow>xs. f x)" using Cons.prems(1) by (intro sum_list_nonneg) auto
  show ?case
  proof (cases "y = a")
    case True
    with Cons.prems(3) nn show ?thesis by simp
  next
    case False
    with Cons.prems have "0 < (\<Sum>x\<leftarrow>xs. f x)" by (intro Cons.IH) auto
    moreover have "0 \<le> f a" using Cons.prems(1) by simp
    ultimately show ?thesis by simp
  qed
qed

lemma frameBandEnergy_pos:
  assumes "0 < bin" "bin < length magnitude" "inBand rate F bin" "magnitude ! bin \<noteq> 0"
  shows "0 < frameBandEnergy rate F magnitude"
  unfolding frameBandEnergy_def
proof (rule sum_list_pos [where y = bin])
  show "\<forall>x\<in>set [1..<length magnitude]. 0 \<le> (if inBand rate F x then magnitude ! x * magnitude ! x else 0)"
    by simp
  show "bin \<in> set [1..<length magnitude]" using assms by simp
  show "0 < (if inBand rate F bin then magnitude ! bin * magnitude ! bin else 0)"
  proof -
    have "0 < (magnitude ! bin)\<^sup>2" using assms(4) by simp
    then show ?thesis using assms(3) by (simp add: power2_eq_square)
  qed
qed

lemma specSpectrum_code:
  assumes "F = 2 ^ q" "length frame = F"
  shows "specSpectrum frame F = getMagnitudeSpectrum frame F"
proof (rule nth_equalityI)
  show "length (specSpectrum frame F) = length (getMagnitudeSpectrum frame F)"
    by (simp add: specSpectrum_def getMagnitudeSpectrum_length)
  fix m assume "m < length (specSpectrum frame F)"
  then have m: "m < F div 2" by (simp add: specSpectrum_def)
  then show "specSpectrum frame F ! m = getMagnitudeSpectrum frame F ! m"
    unfolding getMagnitudeSpectrum_dft [OF assms m] by (simp add: specSpectrum_def)
qed

lemma tone_length: "length tone = 8192"
  by (simp add: tone_def sineFrame_def)

lemma tone_bin: "getMagnitudeSpectrum tone 8192 ! 82 \<noteq> 0"
proof -
  let ?N = "8192::nat"
  have F: "?N = 2 ^ 13" by simp
  have f: "real 82 * 44100 / real ?N = real 82 * 44100 / real ?N" ..
  have "cmod (cis 0 * hannSum ?N (2 * pi * of_int (int 82 - int 0) / real ?N) -
              cis (- 0) * hannSum ?N (2 * pi * of_int (- (int 82 + int 0)) / real ?N))
      < cmod (cis 0 * hannSum ?N (2 * pi * of_int (int 82 - int 82) / real ?N) -
              cis (- 0) * hannSum ?N (2 * pi * of_int (- (int 82 + int 82)) / real ?N))"
    by (rule windowed_sine_dominant) simp_all
  then have "0 < cmod (cis 0 * hannSum ?N (2 * pi * of_int (int 82 - int 82) / real ?N) -
              cis (- 0) * hannSum ?N (2 * pi * of_int (- (int 82 + int 82)) / real ?N))"
    using norm_ge_zero [of "cis 0 * hannSum ?N (2 * pi * of_int (int 82 - int 0) / real ?N) -
              cis (- 0) * hannSum ?N (2 * pi * of_int (- (int 82 + int 0)) / real ?N)"] by linarith
  moreover have "2 * getMagnitudeSpectrum tone ?N ! 82 =
      \<bar>1\<bar> * cmod (cis 0 * hannSum ?N (2 * pi * of_int (int 82 - int 82) / real ?N) -
                 cis (- 0) * hannSum ?N (2 * pi * of_int (- (int 82 + int 82)) / real ?N))"
    unfolding tone_def by (rule sine_spectrum [OF F _ f]) simp_all
  ultimately show ?thesis by linarith
qed

lemma tone_energy: "0 < frameBandEnergy 44100 8192 (getMagnitudeSpectrum tone 8192)"
  by (rule frameBandEnergy_pos [where bin = 82])
    (simp_all add: getMagnitudeSpectrum_length inBand_def tone_bin)

lemma slice_all: "length data = n \<Longrightarrow> slice data 0 n = data"
  by (simp add: slice_def)

lemma slice_prefix: "length data = n \<Longrightarrow> slice (data @ rest) 0 n = data"
  by (simp add: slice_def)

text \<open>
  Claim C8, where it fails. The buffer \<open>tone\<close> is one frame of the specification, and that
  frame carries energy in the band; the frame loop of \<open>detectKey\<close> visits no frame of a
  buffer of 8192 samples (\<open>start + fftSize < data.length\<close>), so that the chroma vector is
  all zeros after the normalization, where the claim has a value equal to 1. With one more
  sample the loop visits the frame, and the normalized chroma vector has the value 1.
\<close>

theorem chroma_zero_despite_energy:
  "0 < specBandEnergy \<lparr>sampleRate = 44100, channelData = tone\<rparr> \<and>
   normalizeChroma (accumulateChroma \<lparr>sampleRate = 44100, channelData = tone\<rparr>) = replicate 12 0 \<and>
   1 \<in> set (normalizeChroma (accumulateChroma \<lparr>sampleRate = 44100, channelData = tone @ [0]\<rparr>))"
proof -
  have p: "(8192::nat) = 2 ^ 13" by simp
  have "specBandEnergy \<lparr>sampleRate = 44100, channelData = tone\<rparr> =
      frameBandEnergy 44100 8192 (getMagnitudeSpectrum tone 8192)"
    by (simp add: specBandEnergy_def tone_length specFrameStarts_exact slice_all
        specSpectrum_code [OF p tone_length])
  then have a: "0 < specBandEnergy \<lparr>sampleRate = 44100, channelData = tone\<rparr>"
    using tone_energy by simp
  have "frameStarts 8192 4096 8192 0 = []" by (simp add: frameStarts.simps)
  then have "accumulateChroma \<lparr>sampleRate = 44100, channelData = tone\<rparr> = replicate 12 0"
    by (simp add: accumulateChroma_def tone_length)
  then have b: "normalizeChroma (accumulateChroma \<lparr>sampleRate = 44100, channelData = tone\<rparr>) = replicate 12 0"
    by (simp add: zero_chroma_norm)
  have "frameStarts 8192 4096 8193 0 = [0]" by (simp add: frameStarts.simps)
  then have "analysedBandEnergy \<lparr>sampleRate = 44100, channelData = tone @ [0]\<rparr> =
      frameBandEnergy 44100 8192 (getMagnitudeSpectrum tone 8192)"
    by (simp add: analysedBandEnergy_def tone_length slice_prefix)
  then have "0 < analysedBandEnergy \<lparr>sampleRate = 44100, channelData = tone @ [0]\<rparr>"
    using tone_energy by simp
  with normalizeChroma_analysed [of "\<lparr>sampleRate = 44100, channelData = tone @ [0]\<rparr>"]
  have c: "1 \<in> set (normalizeChroma (accumulateChroma \<lparr>sampleRate = 44100, channelData = tone @ [0]\<rparr>))"
    by linarith
  from a b c show ?thesis by (intro conjI)
qed

end
